theory Spec2Isabelle
  imports Complex_Main "HOL-Library.AList" "HOL-Library.Multiset" "HOL-Library.List_Lexorder"
begin

section \<open>Go values\<close>

text \<open>
  A Go string is modelled by the sequence of its Unicode code points, the value of
  \<^verbatim>\<open>[]rune(s)\<close>: every string the program handles comes out of the tokenizer, out of
  \<^verbatim>\<open>encoding/json\<close> or out of concatenations of such strings, and the tokenizer itself
  works on \<^verbatim>\<open>[]rune(text)\<close>. Equality and the byte order of \<^verbatim>\<open>sort.Strings\<close> are then
  equality and the lexicographic order of the code points. The two places that look at
  bytes, \<^verbatim>\<open>len(token)\<close> and \<^verbatim>\<open>token[0]\<close>, go through the UTF-8 width of a code point.
  \<open>S\<close> embeds an ASCII literal.
\<close>

type_synonym rune = nat
type_synonym gostring = "rune list"

definition S :: "string \<Rightarrow> gostring" where
  "S s = map of_char s"

definition utf8_len :: "rune \<Rightarrow> nat" where
  "utf8_len r =
     (if r < 0x80 then 1 else if r < 0x800 then 2
      else if r < 0x10000 then 3 else if r \<le> 0x10FFFF then 4 else 3)"

definition len :: "gostring \<Rightarrow> int" where
  "len s = int (sum_list (map utf8_len s))"

text \<open>
  A Go map is an association list with distinct keys: \<open>map_of\<close> reads it,
  \<open>AList.update\<close> writes it. The order of the list carries no meaning; where the
  source ranges over a map and the result depends on the order of the visit, the order
  is an explicit argument. \<^verbatim>\<open>m[k]\<close> on a missing key is the zero value. Go's \<^verbatim>\<open>int\<close>
  is modelled by \<open>int\<close>: the counters count tokens held in memory and stay far below
  \<open>2^63\<close>.
\<close>

type_synonym ('k, 'v) gomap = "('k \<times> 'v) list"

definition get0 :: "('k, int) gomap \<Rightarrow> 'k \<Rightarrow> int" where
  "get0 m k = (case map_of m k of None \<Rightarrow> 0 | Some v \<Rightarrow> v)"

definition getList :: "('k, 'a list) gomap \<Rightarrow> 'k \<Rightarrow> 'a list" where
  "getList m k = (case map_of m k of None \<Rightarrow> [] | Some v \<Rightarrow> v)"

text \<open>\<^verbatim>\<open>xs[lo:hi]\<close> once the bounds have been checked.\<close>

definition slice :: "'a list \<Rightarrow> int \<Rightarrow> int \<Rightarrow> 'a list" where
  "slice xs lo hi = take (nat (hi - lo)) (drop (nat lo) xs)"

datatype panic = SliceBoundsOutOfRange | IndexOutOfRange

datatype 'a outcome = Returned 'a | Panic panic

section \<open>The trainer\<close>

record TrainConfig =
  Order :: int
  MinFrequency :: int
  SaveModel :: bool
  ModelPath :: gostring

record MarkovChain =
  Order :: int
  Chain :: "(gostring, (gostring, int) gomap) gomap"
  Sums :: "(gostring, int) gomap"
  Index :: "(gostring, gostring list) gomap"
  Vocab :: "(gostring, int) gomap"
  Topics :: "(gostring, gostring list) gomap"

definition NewMarkovTrainer :: "TrainConfig \<Rightarrow> MarkovChain" where
  "NewMarkovTrainer config =
     \<lparr>Order = TrainConfig.Order config, Chain = [], Sums = [], Index = [], Vocab = [],
      Topics = []\<rparr>"

definition start_token :: gostring where
  "start_token = S ''<start>''"

definition end_token :: gostring where
  "end_token = S ''<end>''"

definition isPunctuation :: "gostring \<Rightarrow> bool" where
  "isPunctuation token = (len token \<noteq> 0 \<and> list_ex (\<lambda>p. [p] = token) (S '',.!?;:''))"

text \<open>\<^verbatim>\<open>fmt.Sprintf("%v", tokens)\<close>: the elements separated by one space, in brackets.\<close>

fun joinSpace :: "gostring list \<Rightarrow> gostring" where
  "joinSpace [] = []"
| "joinSpace [t] = t"
| "joinSpace (t # ts) = t @ S '' '' @ joinSpace ts"

definition joinTokens :: "gostring list \<Rightarrow> gostring" where
  "joinTokens tokens = S ''['' @ joinSpace tokens @ S '']''"

fun joinSentenceFrom :: "nat \<Rightarrow> gostring list \<Rightarrow> gostring \<Rightarrow> gostring" where
  "joinSentenceFrom i [] result = result"
| "joinSentenceFrom i (token # rest) result =
     joinSentenceFrom (Suc i) rest
       ((if i > 0 \<and> \<not> isPunctuation token then result @ S '' '' else result) @ token)"

definition joinSentence :: "gostring list \<Rightarrow> gostring" where
  "joinSentence tokens = joinSentenceFrom 0 tokens []"

text \<open>
  The second loop of \<^verbatim>\<open>buildIndexAndVocab\<close>: \<open>acc\<close> is \<^verbatim>\<open>uniqueSentences\<close>, and
  \<^verbatim>\<open>unique[s]\<close> holds exactly for the members of \<open>acc\<close>.
\<close>

fun uniqueSentences :: "gostring list \<Rightarrow> gostring list \<Rightarrow> gostring list" where
  "uniqueSentences acc [] = acc"
| "uniqueSentences acc (s # ss) =
     (if s \<in> set acc then uniqueSentences acc ss else uniqueSentences (acc @ [s]) ss)"

definition indexToken :: "gostring \<Rightarrow> MarkovChain \<Rightarrow> gostring \<Rightarrow> MarkovChain" where
  "indexToken originalSentence mc token =
     (if token = start_token \<or> token = end_token then mc
      else mc\<lparr>Vocab := AList.update token (get0 (Vocab mc) token + 1) (Vocab mc),
              Index := AList.update token (getList (Index mc) token @ [originalSentence])
                         (Index mc)\<rparr>)"

definition indexSentence :: "MarkovChain \<Rightarrow> gostring list \<Rightarrow> MarkovChain" where
  "indexSentence mc sentence = foldl (indexToken (joinSentence sentence)) mc sentence"

definition buildIndexAndVocab :: "MarkovChain \<Rightarrow> gostring list list \<Rightarrow> MarkovChain" where
  "buildIndexAndVocab mc sentences =
     (let mc1 = foldl indexSentence mc sentences
      in mc1\<lparr>Index := map (\<lambda>(word, ss). (word, uniqueSentences [] ss)) (Index mc1)\<rparr>)"

text \<open>\<^verbatim>\<open>mc.Chain[prefix][suffix]++\<close>, after the inner map has been made if it was nil.\<close>

definition bump ::
  "gostring \<Rightarrow> gostring \<Rightarrow> (gostring, (gostring, int) gomap) gomap \<Rightarrow>
   (gostring, (gostring, int) gomap) gomap" where
  "bump prefix suffix chain =
     (let inner = getList chain prefix
      in AList.update prefix (AList.update suffix (get0 inner suffix + 1) inner) chain)"

text \<open>
  The loop of \<^verbatim>\<open>processSentence\<close>. The slice expression \<^verbatim>\<open>sentence[i : i+mc.Order-1]\<close>
  panics unless \<open>0 \<le> i \<le> i + Order - 1 \<le> cap\<close>, the index expression unless
  \<open>0 \<le> i + Order - 1 < len\<close>; inside the loop \<open>i + Order - 1 < len \<le> cap\<close>.
  Go's \<^verbatim>\<open>int\<close> has 64 bits: the model agrees with it as long as \<open>len - Order\<close> does
  not wrap, that is for every order above \<open>len - 2^63\<close>.
\<close>

function processLoop :: "MarkovChain \<Rightarrow> gostring list \<Rightarrow> int \<Rightarrow> MarkovChain outcome" where
  "processLoop mc sentence i =
     (if i \<le> int (length sentence) - Order mc then
        (if \<not> (0 \<le> i \<and> i \<le> i + Order mc - 1 \<and> i + Order mc - 1 \<le> int (length sentence))
         then Panic SliceBoundsOutOfRange
         else if \<not> (0 \<le> i + Order mc - 1 \<and> i + Order mc - 1 < int (length sentence))
         then Panic IndexOutOfRange
         else
           let prefix = joinTokens (slice sentence i (i + Order mc - 1));
               suffix = sentence ! nat (i + Order mc - 1)
           in processLoop (mc\<lparr>Chain := bump prefix suffix (Chain mc)\<rparr>) sentence (i + 1))
      else Returned mc)"
  by pat_completeness auto
termination
  by (relation "measure (\<lambda>(mc, sentence, i). nat (int (length sentence) - Order mc - i + 1))")
     auto

declare processLoop.simps [simp del]

definition processSentence :: "MarkovChain \<Rightarrow> gostring list \<Rightarrow> MarkovChain outcome" where
  "processSentence mc sentence =
     (if int (length sentence) < Order mc then Returned mc else processLoop mc sentence 0)"

fun processSentences :: "MarkovChain \<Rightarrow> gostring list list \<Rightarrow> MarkovChain outcome" where
  "processSentences mc [] = Returned mc"
| "processSentences mc (sentence # rest) =
     (case processSentence mc sentence of
        Panic p \<Rightarrow> Panic p
      | Returned mc' \<Rightarrow> processSentences mc' rest)"

definition sumCounts :: "(gostring, int) gomap \<Rightarrow> int" where
  "sumCounts suffixes = foldl (\<lambda>total (suffix, count). total + count) 0 suffixes"

definition calculateSums :: "MarkovChain \<Rightarrow> MarkovChain" where
  "calculateSums mc =
     mc\<lparr>Sums := foldl (\<lambda>acc (prefix, suffixes). AList.update prefix (sumCounts suffixes) acc)
                  (Sums mc) (Chain mc)\<rparr>"

definition no_data :: gostring where
  "no_data = S ''no data to train on''"

text \<open>
  \<^verbatim>\<open>Train\<close> returns its \<^verbatim>\<open>error\<close> (\<open>None\<close> is \<^verbatim>\<open>nil\<close>) together with the model as
  the call leaves it.
\<close>

definition Train ::
  "MarkovChain \<Rightarrow> gostring list list \<Rightarrow> (gostring option \<times> MarkovChain) outcome" where
  "Train mc tokenizedSentences =
     (if length tokenizedSentences = 0 then Returned (Some no_data, mc)
      else
        case processSentences (buildIndexAndVocab mc tokenizedSentences) tokenizedSentences of
          Panic p \<Rightarrow> Panic p
        | Returned mc' \<Rightarrow> Returned (None, calculateSums mc'))"

text \<open>
  \<^verbatim>\<open>GetNextTokens\<close>: \<open>None\<close> is the nil map. \<^verbatim>\<open>float64\<close> is modelled by \<open>real\<close>, so the
  quotients are exact.
\<close>

definition GetNextTokens :: "MarkovChain \<Rightarrow> gostring list \<Rightarrow> (gostring, real) gomap option" where
  "GetNextTokens mc prefix =
     (let prefixKey = joinTokens prefix
      in case map_of (Chain mc) prefixKey of
           None \<Rightarrow> None
         | Some suffixes \<Rightarrow>
             let total = real_of_int (get0 (Sums mc) prefixKey)
             in Some (foldl (\<lambda>probabilities (suffix, count).
                              AList.update suffix (real_of_int count / total) probabilities)
                        [] suffixes))"

text \<open>
  The invariants of the data model: the prefixes of \<open>Chain\<close> are distinct keys, every
  successor map is non-empty, has distinct keys and holds counts of at least one; and
  \<open>Sums\<close> has the keys of \<open>Chain\<close>, each with the total of its successor counts.
\<close>

definition chain_wf :: "(gostring, (gostring, int) gomap) gomap \<Rightarrow> bool" where
  "chain_wf chain \<longleftrightarrow>
     distinct (map fst chain) \<and>
     list_all (\<lambda>(prefix, suffixes).
        suffixes \<noteq> [] \<and> distinct (map fst suffixes) \<and>
        list_all (\<lambda>(suffix, count). 1 \<le> count) suffixes) chain"

definition sums_invariant :: "MarkovChain \<Rightarrow> bool" where
  "sums_invariant mc \<longleftrightarrow>
     set (map fst (Sums mc)) = set (map fst (Chain mc)) \<and>
     list_all (\<lambda>(prefix, suffixes).
        map_of (Sums mc) prefix = Some (sum_list (map snd suffixes))) (Chain mc)"

subsection \<open>A small trained model\<close>

definition ex_config :: TrainConfig where
  "ex_config = \<lparr>TrainConfig.Order = 2, MinFrequency = 0, SaveModel = False, ModelPath = []\<rparr>"

definition ex_corpus :: "gostring list list" where
  "ex_corpus = [[S ''<start>'', S ''a'', S ''b'', S ''<end>''], [S ''<start>'', S ''a'', S ''c'', S ''<end>'']]"


definition ex_model :: MarkovChain where
  "ex_model =
     \<lparr>Order = 2,
      Chain = [(S ''[<start>]'', [(S ''a'', 2)]), (S ''[a]'', [(S ''b'', 1), (S ''c'', 1)]),
               (S ''[b]'', [(S ''<end>'', 1)]), (S ''[c]'', [(S ''<end>'', 1)])],
      Sums = [(S ''[<start>]'', 2), (S ''[a]'', 2), (S ''[b]'', 1), (S ''[c]'', 1)],
      Index = [(S ''a'', [S ''<start> a b <end>'', S ''<start> a c <end>'']),
               (S ''b'', [S ''<start> a b <end>'']), (S ''c'', [S ''<start> a c <end>''])],
      Vocab = [(S ''a'', 2), (S ''b'', 1), (S ''c'', 1)],
      Topics = []\<rparr>"

definition ex_config_order0 :: TrainConfig where
  "ex_config_order0 = \<lparr>TrainConfig.Order = 0, MinFrequency = 0, SaveModel = False, ModelPath = []\<rparr>"

section \<open>Retrieval\<close>

text \<open>
  Go does not specify the order in which \<^verbatim>\<open>range\<close> visits a map. The visit is
  modelled by \<open>mapRange order m\<close>, where \<open>order\<close> stands for the choice of the runtime:
  a list of positions, each selecting among the entries not yet visited the one that is
  visited next (entries left when \<open>order\<close> runs out are visited as they stand). Every
  \<open>order\<close> gives a permutation of the entries, and every permutation is given by some
  \<open>order\<close> (lemmas \<open>mset_mapRange\<close> and \<open>mapRange_complete\<close>).
\<close>

function mapRange :: "nat list \<Rightarrow> 'a list \<Rightarrow> 'a list" where
  "mapRange order [] = []"
| "mapRange [] (x # xs) = x # xs"
| "mapRange (i # order) (x # xs) =
     (let j = i mod length (x # xs)
      in (x # xs) ! j # mapRange order (take j (x # xs) @ drop (Suc j) (x # xs)))"
  by pat_completeness auto
termination
  by (relation "measure (\<lambda>(order, xs). length xs)") auto

text \<open>
  The first loop of \<^verbatim>\<open>Search\<close>: one point per occurrence of the sentence in the index
  entry of a queried keyword.
\<close>

definition addScores :: "(gostring, int) gomap \<Rightarrow> gostring list \<Rightarrow> (gostring, int) gomap" where
  "addScores sentenceScores sentences =
     foldl (\<lambda>scores sentence. AList.update sentence (get0 scores sentence + 1) scores)
       sentenceScores sentences"

definition sentenceScores :: "MarkovChain \<Rightarrow> gostring list \<Rightarrow> (gostring, int) gomap" where
  "sentenceScores mc keywords =
     foldl (\<lambda>scores keyword.
              case map_of (Index mc) keyword of
                None \<Rightarrow> scores
              | Some sentences \<Rightarrow> addScores scores sentences)
       [] keywords"

text \<open>
  \<^verbatim>\<open>sort.Slice(scored, less)\<close> with \<^verbatim>\<open>less(i, j) = scored[i].score > scored[j].score\<close>
  is modelled by the stable sort on the key \<open>- score\<close>; \<^verbatim>\<open>sort.Slice\<close> is not
  guaranteed to be stable, but \<open>scored\<close> arrives in any order already, so that every
  list that \<^verbatim>\<open>sort.Slice\<close> may leave is the stable sort of some visit of the score map
  (lemma \<open>sortSlice_any_sorted\<close>).
\<close>

definition sortSlice :: "(gostring \<times> int) list \<Rightarrow> (gostring \<times> int) list" where
  "sortSlice scored = sort_key (\<lambda>(sentence, score). - score) scored"

definition Search :: "MarkovChain \<Rightarrow> gostring list \<Rightarrow> int \<Rightarrow> nat list \<Rightarrow> gostring list" where
  "Search mc keywords limit order =
     (let scored = mapRange order (sentenceScores mc keywords);
          sorted = sortSlice scored
      in map fst (take (nat limit) sorted))"

text \<open>
  The index of a trained model: distinct keys, and no sentence twice under one token.
\<close>

definition index_wf :: "(gostring, gostring list) gomap \<Rightarrow> bool" where
  "index_wf index \<longleftrightarrow>
     distinct (map fst index) \<and> list_all (\<lambda>(word, sentences). distinct sentences) index"

definition matching :: "MarkovChain \<Rightarrow> gostring list \<Rightarrow> gostring \<Rightarrow> gostring set" where
  "matching mc keywords sentence =
     {keyword \<in> set keywords. sentence \<in> set (getList (Index mc) keyword)}"

definition scoreStep :: "MarkovChain \<Rightarrow> (gostring, int) gomap \<Rightarrow> gostring \<Rightarrow> (gostring, int) gomap" where
  "scoreStep mc scores keyword =
     (case map_of (Index mc) keyword of None \<Rightarrow> scores | Some sentences \<Rightarrow> addScores scores sentences)"

definition ex_sentence1 :: gostring where
  "ex_sentence1 = S ''<start> a b <end>''"

definition ex_sentence2 :: gostring where
  "ex_sentence2 = S ''<start> a c <end>''"

section \<open>The tokenizer\<close>

text \<open>
  The tables of Go's \<^verbatim>\<open>unicode\<close> package that the tokenizer and the formatter consult
  are parameters of the model: letters (\<^verbatim>\<open>\p{L}\<close>), numbers (\<^verbatim>\<open>\p{N}\<close>) and the two
  case mappings. White space is the fixed list of \<^verbatim>\<open>unicode.IsSpace\<close>.
\<close>

record unicode =
  IsLetter :: "rune \<Rightarrow> bool"
  IsNumber :: "rune \<Rightarrow> bool"
  ToLower :: "rune \<Rightarrow> rune"
  ToUpper :: "rune \<Rightarrow> rune"

definition IsSpace :: "rune \<Rightarrow> bool" where
  "IsSpace r \<longleftrightarrow>
     r \<in> {0x09, 0x0A, 0x0B, 0x0C, 0x0D, 0x20, 0x85, 0xA0, 0x1680, 0x2028, 0x2029, 0x202F,
          0x205F, 0x3000} \<or>
     (0x2000 \<le> r \<and> r \<le> 0x200A)"

record TokenizerConfig =
  KeepPunctuation :: bool
  ToLowerCase :: bool

text \<open>
  The two regular expressions of a \<^verbatim>\<open>Tokenizer\<close> are constants: \<open>punctuationRegex\<close> is
  the character class of \<^verbatim>\<open>.!?,;:'"()[]{}\<close> and of the horizontal ellipsis, the en dash
  and the em dash; \<^verbatim>\<open>wordRegex\<close> is one or more letters, numbers or hyphens.
\<close>

record Tokenizer =
  keepPunctuation :: bool

definition NewTokenizer :: "TokenizerConfig \<Rightarrow> Tokenizer" where
  "NewTokenizer config = \<lparr>keepPunctuation = KeepPunctuation config\<rparr>"

definition punctuationRegex :: "rune \<Rightarrow> bool" where
  "punctuationRegex r \<longleftrightarrow>
     r \<in> set (S ''.!?,;:()[]{}'') \<or> r \<in> {0x27, 0x22, 0x2026, 0x2013, 0x2014}"

definition wordRune :: "unicode \<Rightarrow> rune \<Rightarrow> bool" where
  "wordRune u r \<longleftrightarrow> IsLetter u r \<or> IsNumber u r \<or> r = 0x2D"

function tokenizeWithPunctuation :: "unicode \<Rightarrow> gostring \<Rightarrow> gostring list" where
  "tokenizeWithPunctuation u [] = []"
| "tokenizeWithPunctuation u (r # runes) =
     (if IsSpace r then tokenizeWithPunctuation u runes
      else if punctuationRegex r then [r] # tokenizeWithPunctuation u runes
      else if wordRune u r then
        (let word = takeWhile (wordRune u) (r # runes)
         in (if word \<noteq> S ''start'' \<and> word \<noteq> S ''end'' then [word] else []) @
            tokenizeWithPunctuation u (dropWhile (wordRune u) runes))
      else tokenizeWithPunctuation u runes)"
  by pat_completeness auto
termination
  by (relation "measure (\<lambda>(u, runes). length runes)")
     (auto simp: length_dropWhile_le less_Suc_eq_le)

text \<open>\<^verbatim>\<open>wordRegex.FindAllString(text, -1)\<close>: the maximal runs of word runes, left to right.\<close>

function findAllWords :: "unicode \<Rightarrow> gostring \<Rightarrow> gostring list" where
  "findAllWords u [] = []"
| "findAllWords u (r # runes) =
     (if wordRune u r
      then takeWhile (wordRune u) (r # runes) # findAllWords u (dropWhile (wordRune u) runes)
      else findAllWords u runes)"
  by pat_completeness auto
termination
  by (relation "measure (\<lambda>(u, runes). length runes)")
     (auto simp: length_dropWhile_le less_Suc_eq_le)

definition tokenizeWordsOnly :: "unicode \<Rightarrow> gostring \<Rightarrow> gostring list" where
  "tokenizeWordsOnly u text =
     filter (\<lambda>match. match \<noteq> [] \<and> match \<noteq> S ''-'') (findAllWords u text)"

definition addSpecialTokens :: "gostring list \<Rightarrow> gostring list" where
  "addSpecialTokens tokens =
     (if length tokens = 0 then [start_token, end_token]
      else [start_token] @ tokens @ [end_token])"

definition Tokenize :: "unicode \<Rightarrow> Tokenizer \<Rightarrow> gostring \<Rightarrow> gostring list" where
  "Tokenize u t text =
     (let text = map (ToLower u) text;
          tokens = (if keepPunctuation t then tokenizeWithPunctuation u text
                    else tokenizeWordsOnly u text)
      in addSpecialTokens tokens)"

text \<open>
  \<^verbatim>\<open>isPunctuationToken\<close> matches \<^verbatim>\<open>string(token[0])\<close>, the first byte of the token
  read as a code point, against \<open>punctuationRegex\<close>.
\<close>

definition firstByte :: "rune \<Rightarrow> rune" where
  "firstByte r =
     (if r < 0x80 then r else if r < 0x800 then 0xC0 + r div 0x40
      else if r < 0x10000 then 0xE0 + r div 0x1000
      else if r \<le> 0x10FFFF then 0xF0 + r div 0x40000 else 0xEF)"

definition isPunctuationToken :: "gostring \<Rightarrow> bool" where
  "isPunctuationToken token =
     (case token of
        [] \<Rightarrow> False
      | r # rest \<Rightarrow>
          if token = start_token \<or> token = end_token then False
          else punctuationRegex (firstByte r))"

fun JoinTokensFrom :: "nat \<Rightarrow> gostring list \<Rightarrow> gostring \<Rightarrow> gostring" where
  "JoinTokensFrom i [] result = result"
| "JoinTokensFrom i (token # rest) result =
     JoinTokensFrom (Suc i) rest
       ((if i > 0 \<and> \<not> isPunctuationToken token then result @ S '' '' else result) @ token)"

definition JoinTokens :: "gostring list \<Rightarrow> gostring" where
  "JoinTokens tokens = JoinTokensFrom 0 tokens []"

text \<open>The tables on the ASCII range, for inputs written in ASCII.\<close>

definition ascii :: unicode where
  "ascii =
     \<lparr>IsLetter = (\<lambda>r. (0x41 \<le> r \<and> r \<le> 0x5A) \<or> (0x61 \<le> r \<and> r \<le> 0x7A)),
      IsNumber = (\<lambda>r. 0x30 \<le> r \<and> r \<le> 0x39),
      ToLower = (\<lambda>r. if 0x41 \<le> r \<and> r \<le> 0x5A then r + 0x20 else r),
      ToUpper = (\<lambda>r. if 0x61 \<le> r \<and> r \<le> 0x7A then r - 0x20 else r)\<rparr>"

section \<open>The answer generator\<close>

text \<open>
  \<^verbatim>\<open>float64\<close> is modelled by \<open>real\<close>: sums, products and quotients are exact, and
  \<^verbatim>\<open>math.Log2\<close> is the logarithm to base 2. Rounding, infinities and NaN are not
  modelled.
\<close>

record Config =
  MaxLength :: int
  UsePunctuation :: bool
  MaxThematicEntropy :: real

record AnswerGenerator =
  chain :: MarkovChain
  tokenizer :: Tokenizer
  maxLength :: int
  tokenEntropy :: "(gostring, real) gomap"
  minEntropy :: real
  maxEntropy :: real

definition MaxFloat64 :: real where
  "MaxFloat64 = (2 ^ 53 - 1) * 2 ^ 971"

subsection \<open>Entropy analysis\<close>

definition TrimPrefix :: "gostring \<Rightarrow> gostring \<Rightarrow> gostring" where
  "TrimPrefix s p = (if take (length p) s = p then drop (length p) s else s)"

definition TrimSuffix :: "gostring \<Rightarrow> gostring \<Rightarrow> gostring" where
  "TrimSuffix s p =
     (if length p \<le> length s \<and> drop (length s - length p) s = p
      then take (length s - length p) s else s)"

definition TrimSpace :: "gostring \<Rightarrow> gostring" where
  "TrimSpace s = rev (dropWhile IsSpace (rev (dropWhile IsSpace s)))"

text \<open>\<^verbatim>\<open>strings.Split(s, sep)\<close> for a separator of one rune.\<close>

fun Split :: "gostring \<Rightarrow> rune \<Rightarrow> gostring list" where
  "Split [] sep = [[]]"
| "Split (r # s) sep =
     (if r = sep then [] # Split s sep
      else case Split s sep of [] \<Rightarrow> [[r]] | part # parts \<Rightarrow> (r # part) # parts)"

fun Join :: "gostring list \<Rightarrow> gostring \<Rightarrow> gostring" where
  "Join [] sep = []"
| "Join [t] sep = t"
| "Join (t # ts) sep = t @ sep @ Join ts sep"

definition parsePrefix :: "gostring \<Rightarrow> gostring list" where
  "parsePrefix prefix =
     (let cleaned = TrimSuffix (TrimPrefix prefix (S ''['')) (S '']'')
      in if cleaned = [] then []
         else filter (\<lambda>cleanToken. cleanToken \<noteq> []) (map TrimSpace (Split cleaned 0x20)))"

definition createContextKey :: "gostring list \<Rightarrow> gostring" where
  "createContextKey tokens = Join (sort tokens) (S ''|'')"

definition addTokenContext ::
  "gostring \<Rightarrow> gostring list \<Rightarrow> (gostring, (gostring, int) gomap) gomap \<Rightarrow>
   (gostring, (gostring, int) gomap) gomap" where
  "addTokenContext token context tokenContexts =
     bump token (createContextKey context) tokenContexts"

text \<open>
  The first loop of \<^verbatim>\<open>analyzeEntropy\<close>. The counts of the chain are not read: the
  inner loop ranges over the keys of \<open>suffixes\<close> only.
\<close>

definition tokenContexts ::
  "(gostring, (gostring, int) gomap) gomap \<Rightarrow> (gostring, (gostring, int) gomap) gomap" where
  "tokenContexts ch =
     foldl (\<lambda>contexts (prefix, suffixes).
              let prefixTokens = parsePrefix prefix;
                  contexts1 = foldl (\<lambda>acc token. addTokenContext token prefixTokens acc)
                                contexts prefixTokens
              in foldl (\<lambda>acc (suffix, count). addTokenContext suffix prefixTokens acc)
                   contexts1 suffixes)
       [] ch"

text \<open>One pass of the outer loop, named for the proofs.\<close>

definition contextStep ::
  "(gostring, (gostring, int) gomap) gomap \<Rightarrow> gostring \<times> (gostring, int) gomap \<Rightarrow>
   (gostring, (gostring, int) gomap) gomap" where
  "contextStep contexts entry =
     (case entry of (prefix, suffixes) \<Rightarrow>
        let prefixTokens = parsePrefix prefix;
            contexts1 = foldl (\<lambda>acc token. addTokenContext token prefixTokens acc)
                          contexts prefixTokens
        in foldl (\<lambda>acc (suffix, count). addTokenContext suffix prefixTokens acc)
             contexts1 suffixes)"

definition calculateEntropy :: "(gostring, int) gomap \<Rightarrow> real" where
  "calculateEntropy contexts =
     (let total = sumCounts contexts
      in if total = 0 then MaxFloat64
         else foldl (\<lambda>entropy (key, count).
                       let probability = real_of_int count / real_of_int total
                       in entropy - probability * log 2 probability)
                0 contexts)"

definition recordEntropy :: "AnswerGenerator \<Rightarrow> gostring \<times> (gostring, int) gomap \<Rightarrow> AnswerGenerator" where
  "recordEntropy g entry =
     (case entry of (token, contexts) \<Rightarrow>
        let entropy = calculateEntropy contexts;
            g1 = g\<lparr>tokenEntropy := AList.update token entropy (tokenEntropy g)\<rparr>;
            g2 = (if entropy < minEntropy g1 then g1\<lparr>minEntropy := entropy\<rparr> else g1)
        in if entropy > maxEntropy g2 then g2\<lparr>maxEntropy := entropy\<rparr> else g2)"

definition analyzeEntropy :: "AnswerGenerator \<Rightarrow> AnswerGenerator" where
  "analyzeEntropy g = foldl recordEntropy g (tokenContexts (Chain (chain g)))"

definition NewAnswerGenerator :: "MarkovChain \<Rightarrow> Config \<Rightarrow> AnswerGenerator" where
  "NewAnswerGenerator mc config =
     analyzeEntropy
       \<lparr>chain = mc,
        tokenizer = NewTokenizer \<lparr>KeepPunctuation = UsePunctuation config, ToLowerCase = True\<rparr>,
        maxLength = MaxLength config,
        tokenEntropy = [],
        minEntropy = MaxFloat64,
        maxEntropy = - MaxFloat64\<rparr>"

definition isThematicToken :: "AnswerGenerator \<Rightarrow> gostring \<Rightarrow> bool" where
  "isThematicToken g token =
     (case map_of (tokenEntropy g) token of
        None \<Rightarrow> False
      | Some entropy \<Rightarrow> entropy < 2.0)"

definition getThematicKeywords :: "AnswerGenerator \<Rightarrow> gostring list \<Rightarrow> gostring list" where
  "getThematicKeywords g keywords = filter (isThematicToken g) keywords"

text \<open>
  The observations of the analysis, one for each increment: for every prefix key of the
  chain, each token of the parsed prefix and each successor, with the context key of the
  prefix.
\<close>

definition observations ::
  "(gostring, (gostring, int) gomap) gomap \<Rightarrow> (gostring \<times> gostring) list" where
  "observations ch =
     concat (map (\<lambda>(prefix, suffixes).
                    let prefixTokens = parsePrefix prefix;
                        contextKey = createContextKey prefixTokens
                    in map (\<lambda>token. (token, contextKey)) prefixTokens @
                       map (\<lambda>(suffix, count). (suffix, contextKey)) suffixes)
              ch)"

text \<open>
  The histogram that the specification describes, for comparison: every observation of
  a chain entry weighs as much as the transition count of that entry.
\<close>

definition addWeightedContext ::
  "int \<Rightarrow> gostring \<Rightarrow> gostring \<Rightarrow> (gostring, (gostring, int) gomap) gomap \<Rightarrow>
   (gostring, (gostring, int) gomap) gomap" where
  "addWeightedContext weight token contextKey contexts =
     (let inner = getList contexts token
      in AList.update token (AList.update contextKey (get0 inner contextKey + weight) inner)
           contexts)"

definition spec_tokenContexts ::
  "(gostring, (gostring, int) gomap) gomap \<Rightarrow> (gostring, (gostring, int) gomap) gomap" where
  "spec_tokenContexts ch =
     foldl (\<lambda>contexts (prefix, suffixes).
              let prefixTokens = parsePrefix prefix;
                  contextKey = createContextKey prefixTokens
              in foldl (\<lambda>acc (suffix, count).
                          addWeightedContext count suffix contextKey
                            (foldl (\<lambda>acc' token. addWeightedContext count token contextKey acc')
                               acc prefixTokens))
                   contexts suffixes)
       [] ch"

definition ex_chain :: "(gostring, (gostring, int) gomap) gomap" where
  "ex_chain = [(S ''[x]'', [(S ''y'', 3)]), (S ''[z]'', [(S ''y'', 1)])]"

definition ex_gen_config :: Config where
  "ex_gen_config = \<lparr>MaxLength = 50, UsePunctuation = True, MaxThematicEntropy = 1 / 2\<rparr>"

definition ex_chain_model :: MarkovChain where
  "ex_chain_model =
     \<lparr>Order = 2, Chain = ex_chain, Sums = [(S ''[x]'', 3), (S ''[z]'', 1)],
      Index = [(S ''x'', [S ''x y'']), (S ''y'', [S ''x y'', S ''z y'']), (S ''z'', [S ''z y''])],
      Vocab = [(S ''x'', 3), (S ''y'', 4), (S ''z'', 1)], Topics = []\<rparr>"

subsection \<open>Sampling\<close>

text \<open>
  \<^verbatim>\<open>selectNextToken\<close> seeds the global random source from the clock and draws
  \<^verbatim>\<open>rand.Float64()\<close> at every call, and it ranges twice over the map of candidates.
  What the clock, the generator and the runtime decide in one call is a \<open>draw\<close>: the
  number \<open>rnd\<close> in \<open>[0, 1)\<close> and the orders of the two visits.
\<close>

record draw =
  rnd :: real
  visit1 :: "nat list"
  visit2 :: "nat list"

fun selectLoop :: "real \<Rightarrow> real \<Rightarrow> (gostring \<times> real) list \<Rightarrow> gostring option" where
  "selectLoop r cumulative [] = None"
| "selectLoop r cumulative ((token, prob) # rest) =
     (let cumulative' = cumulative + prob
      in if r \<le> cumulative' then Some token else selectLoop r cumulative' rest)"

definition maxLoop :: "(gostring \<times> real) list \<Rightarrow> gostring" where
  "maxLoop visited =
     fst (foldl (\<lambda>(maxToken, maxProb) (token, prob).
                   if prob > maxProb then (token, prob) else (maxToken, maxProb))
            ([], 0) visited)"

definition selectNextToken :: "(gostring, real) gomap \<Rightarrow> draw \<Rightarrow> gostring" where
  "selectNextToken probabilities d =
     (case selectLoop (rnd d) 0 (mapRange (visit1 d) probabilities) of
        Some token \<Rightarrow> token
      | None \<Rightarrow> maxLoop (mapRange (visit2 d) probabilities))"

definition thematicWeight :: "AnswerGenerator \<Rightarrow> gostring list \<Rightarrow> gostring \<Rightarrow> real \<Rightarrow> real" where
  "thematicWeight g keywords token prob =
     (if list_ex (\<lambda>keyword. token = keyword) keywords then
        (case map_of (tokenEntropy g) token of
           Some entropy \<Rightarrow> if entropy < 2.0 then prob * (3.0 - entropy) else prob * 1.5
         | None \<Rightarrow> prob * 1.5)
      else prob)"

definition selectThematicToken ::
  "AnswerGenerator \<Rightarrow> (gostring, real) gomap \<Rightarrow> gostring list \<Rightarrow> draw \<Rightarrow> gostring" where
  "selectThematicToken g probabilities keywords d =
     (let (weightedProbabilities, totalWeight) =
            foldl (\<lambda>(weighted, total) (token, prob).
                     let weight = thematicWeight g keywords token prob
                     in (AList.update token weight weighted, total + weight))
              ([], 0) probabilities;
          weightedProbabilities =
            (if totalWeight > 0
             then map (\<lambda>(token, weight). (token, weight / totalWeight)) weightedProbabilities
             else weightedProbabilities)
      in selectNextToken weightedProbabilities d)"

definition ex_candidates :: "(gostring, real) gomap" where
  "ex_candidates = [(S ''a'', 1 / 2), (S ''b'', 1 / 2)]"

subsection \<open>Keywords and the best sentence\<close>

text \<open>
  The stop words of \<^verbatim>\<open>extractKeywords\<close>, as code points: the sixteen Russian
  question words and particles of the source, and the two boundary markers.
\<close>

definition stopWords :: "gostring list" where
  "stopWords =
     [[0x447, 0x442, 0x43E], [0x43A, 0x430, 0x43A], [0x437, 0x430, 0x447, 0x435, 0x43C],
      [0x43F, 0x43E, 0x447, 0x435, 0x43C, 0x443], [0x433, 0x434, 0x435],
      [0x43A, 0x43E, 0x433, 0x434, 0x430], [0x43A, 0x430, 0x43A, 0x43E, 0x439],
      [0x43A, 0x430, 0x43A, 0x430, 0x44F], [0x43A, 0x430, 0x43A, 0x43E, 0x435],
      [0x43A, 0x430, 0x43A, 0x438, 0x435], [0x43E, 0x431, 0x44A, 0x44F, 0x441, 0x43D, 0x438],
      [0x440, 0x430, 0x441, 0x441, 0x43A, 0x430, 0x436, 0x438],
      [0x43F, 0x43E, 0x436, 0x430, 0x43B, 0x443, 0x439, 0x441, 0x442, 0x430],
      [0x43C, 0x43E, 0x433], [0x431, 0x44B], [0x43B, 0x438],
      start_token, end_token]"

definition extractKeywords :: "unicode \<Rightarrow> AnswerGenerator \<Rightarrow> gostring \<Rightarrow> gostring list" where
  "extractKeywords u g question =
     filter (\<lambda>token. \<not> list_ex (\<lambda>w. w = token) stopWords \<and> len token > 1 \<and>
                      \<not> isPunctuation token)
       (Tokenize u (tokenizer g) question)"

text \<open>
  The score of \<^verbatim>\<open>findBestSentence\<close>: one point for every token of the sentence that
  equals some keyword (the inner loop breaks at the first keyword that matches).
\<close>

definition matchScore :: "gostring list \<Rightarrow> gostring list \<Rightarrow> int" where
  "matchScore tokens keywords =
     int (length (filter (\<lambda>token. list_ex (\<lambda>keyword. token = keyword) keywords) tokens))"

definition betterSentence ::
  "unicode \<Rightarrow> AnswerGenerator \<Rightarrow> gostring list \<Rightarrow> int \<times> gostring \<Rightarrow> gostring \<Rightarrow> int \<times> gostring" where
  "betterSentence u g keywords best sentence =
     (case best of (bestScore, bestSentence) \<Rightarrow>
        let score = matchScore (Tokenize u (tokenizer g) sentence) keywords
        in if score > bestScore then (score, sentence) else (bestScore, bestSentence))"

definition findBestSentence ::
  "unicode \<Rightarrow> AnswerGenerator \<Rightarrow> gostring list \<Rightarrow> gostring list \<Rightarrow> gostring" where
  "findBestSentence u g sentences keywords =
     (if length sentences = 0 then []
      else snd (foldl (betterSentence u g keywords) (- 1, sentences ! 0) sentences))"

text \<open>
  What the specification counts for a sentence, for comparison: the distinct keywords
  that occur among its tokens.
\<close>

definition spec_keywordCount :: "gostring list \<Rightarrow> gostring list \<Rightarrow> nat" where
  "spec_keywordCount tokens keywords =
     length (remdups (filter (\<lambda>keyword. keyword \<in> set tokens) keywords))"

definition ex_best1 :: gostring where
  "ex_best1 = S ''<start> a b <end>''"

definition ex_best2 :: gostring where
  "ex_best2 = S ''<start> a a a <end>''"

subsection \<open>Start position\<close>

definition segmentScore :: "AnswerGenerator \<Rightarrow> gostring list \<Rightarrow> gostring list \<Rightarrow> real" where
  "segmentScore g segment keywords =
     foldl (\<lambda>score token.
              if list_ex (\<lambda>keyword. token = keyword) keywords then
                (case map_of (tokenEntropy g) token of
                   Some entropy \<Rightarrow> score + 1.0 / (entropy + 0.1)
                 | None \<Rightarrow> score + 0.5)
              else score)
       0 segment"

function startPositionLoop ::
  "AnswerGenerator \<Rightarrow> gostring list \<Rightarrow> gostring list \<Rightarrow> int \<Rightarrow> int \<Rightarrow> real \<Rightarrow> int outcome" where
  "startPositionLoop g tokens keywords i bestPos bestScore =
     (if i \<le> int (length tokens) - Order (chain g) + 1 then
        (let stop = min (i + Order (chain g) - 1) (int (length tokens))
         in if \<not> (0 \<le> i \<and> i \<le> stop \<and> stop \<le> int (length tokens))
            then Panic SliceBoundsOutOfRange
            else
              let segment = slice tokens i stop;
                  prefixKey = joinTokens segment
              in if map_of (Chain (chain g)) prefixKey = None
                 then startPositionLoop g tokens keywords (i + 1) bestPos bestScore
                 else
                   let score = segmentScore g segment keywords
                   in if score > bestScore
                      then startPositionLoop g tokens keywords (i + 1) i score
                      else startPositionLoop g tokens keywords (i + 1) bestPos bestScore)
      else Returned bestPos)"
  by pat_completeness auto
termination
  by (relation "measure (\<lambda>(g, tokens, keywords, i, bestPos, bestScore).
        nat (int (length tokens) - Order (chain g) + 2 - i))") auto

declare startPositionLoop.simps [simp del]

definition findThematicStartPosition ::
  "AnswerGenerator \<Rightarrow> gostring list \<Rightarrow> gostring list \<Rightarrow> int outcome" where
  "findThematicStartPosition g tokens keywords = startPositionLoop g tokens keywords 0 0 (- 1.0)"

subsection \<open>Guided continuation\<close>

text \<open>
  The state of the loop of \<^verbatim>\<open>generateThematicContinuation\<close>. \<open>backing\<close> is the array
  under the slice \<^verbatim>\<open>tokens\<close>, up to its capacity: \<^verbatim>\<open>append(tokens[startIdx:currentPos],
  result...)\<close> writes \<open>result\<close> into it at \<open>currentPos\<close> when the capacity suffices, and
  the later reads of \<^verbatim>\<open>tokens[currentPos]\<close> see what was written. \<open>sampled\<close> counts the
  calls of the sampler, to pick the draw of each call.
\<close>

record contState =
  result :: "gostring list"
  currentPos :: int
  attempts :: int
  backing :: "gostring list"
  sampled :: nat

datatype iteration = Next contState | Stop contState | Fail panic

definition overwrite :: "'a list \<Rightarrow> nat \<Rightarrow> 'a list \<Rightarrow> 'a list" where
  "overwrite xs pos ys = take pos xs @ ys @ drop (pos + length ys) xs"

definition contPrefix :: "AnswerGenerator \<Rightarrow> contState \<Rightarrow> (gostring list \<times> gostring list) outcome" where
  "contPrefix g st =
     (if int (length (result st)) \<ge> Order (chain g) - 1 then
        (let low = int (length (result st)) - Order (chain g) + 1
         in if \<not> (0 \<le> low \<and> low \<le> int (length (result st)))
            then Panic SliceBoundsOutOfRange
            else Returned (drop (nat low) (result st), backing st))
      else
        (let needed = Order (chain g) - 1 - int (length (result st));
             startIdx = max 0 (currentPos st - needed)
         in if \<not> (0 \<le> startIdx \<and> startIdx \<le> currentPos st \<and>
                   currentPos st \<le> int (length (backing st)))
            then Panic SliceBoundsOutOfRange
            else Returned
                   (slice (backing st) startIdx (currentPos st) @ result st,
                    if currentPos st + int (length (result st)) \<le> int (length (backing st))
                    then overwrite (backing st) (nat (currentPos st)) (result st)
                    else backing st)))"

definition contStall :: "nat \<Rightarrow> contState \<Rightarrow> iteration" where
  "contStall n st =
     (if currentPos st < int n then
        (if currentPos st < 0 then Fail IndexOutOfRange
         else Next (st\<lparr>result := result st @ [backing st ! nat (currentPos st)],
                       currentPos := currentPos st + 1,
                       attempts := attempts st + 1\<rparr>))
      else Next (st\<lparr>attempts := attempts st + 1\<rparr>))"

definition contIteration ::
  "AnswerGenerator \<Rightarrow> gostring list \<Rightarrow> (nat \<Rightarrow> draw) \<Rightarrow> nat \<Rightarrow> contState \<Rightarrow> iteration" where
  "contIteration g keywords draws n st =
     (case contPrefix g st of
        Panic p \<Rightarrow> Fail p
      | Returned (currentPrefix, backing') \<Rightarrow>
          let st1 = st\<lparr>backing := backing'\<rparr>
          in case GetNextTokens (chain g) currentPrefix of
               None \<Rightarrow> contStall n st1
             | Some nextTokens \<Rightarrow>
                 if length nextTokens > 0 then
                   (let nextToken = selectThematicToken g nextTokens keywords (draws (sampled st1))
                    in if nextToken = end_token then Stop st1
                       else Next (st1\<lparr>result := result st1 @ [nextToken], attempts := 0,
                                      sampled := Suc (sampled st1)\<rparr>))
                 else contStall n st1)"

definition contGuard :: "AnswerGenerator \<Rightarrow> nat \<Rightarrow> contState \<Rightarrow> bool" where
  "contGuard g n st \<longleftrightarrow>
     int (length (result st)) < maxLength g \<and> currentPos st < int n \<and> attempts st < 10"

function contLoop ::
  "AnswerGenerator \<Rightarrow> gostring list \<Rightarrow> (nat \<Rightarrow> draw) \<Rightarrow> nat \<Rightarrow> contState \<Rightarrow> contState outcome" where
  "contLoop g keywords draws n st =
     (if contGuard g n st then
        (case contIteration g keywords draws n st of
           Next st' \<Rightarrow> contLoop g keywords draws n st'
         | Stop st' \<Rightarrow> Returned st'
         | Fail p \<Rightarrow> Panic p)
      else Returned st)"
  by pat_completeness auto
termination
proof (relation "measure (\<lambda>(g, keywords, draws, n, st). nat (maxLength g - int (length (result st))))")
  show "wf (measure (\<lambda>(g, keywords, draws, n, st). nat (maxLength g - int (length (result st)))))"
    by simp
next
  fix g kws draws n st st'
  assume guard: "contGuard g n st" and step: "contIteration g kws draws n st = Next st'"
  from guard step have "length (result st') = Suc (length (result st))"
    by (auto simp: contGuard_def contIteration_def contStall_def Let_def
        split: outcome.splits option.splits if_splits prod.splits)
  with guard show "((g, kws, draws, n, st'), (g, kws, draws, n, st))
      \<in> measure (\<lambda>(g, keywords, draws, n, st). nat (maxLength g - int (length (result st))))"
    by (simp add: contGuard_def)
qed

declare contLoop.simps [simp del]

text \<open>\<^verbatim>\<open>g.maxLength/2\<close>: Go's division truncates towards zero.\<close>

definition half :: "int \<Rightarrow> int" where
  "half x = (if 0 \<le> x then x div 2 else - ((- x) div 2))"

text \<open>
  The tokens that \<^verbatim>\<open>generateThematicContinuation\<close> joins. \<open>spare\<close> is the capacity of
  \<^verbatim>\<open>tokens\<close> beyond its length, empty strings as the runtime allocated them.
\<close>

definition continuationTokens ::
  "AnswerGenerator \<Rightarrow> gostring list \<Rightarrow> nat \<Rightarrow> int \<Rightarrow> gostring list \<Rightarrow> (nat \<Rightarrow> draw) \<Rightarrow>
   gostring list outcome" where
  "continuationTokens g tokens spare startPos keywords draws =
     (let backing0 = tokens @ replicate spare [];
          n = length tokens
      in if startPos > 0 \<and> startPos > int (length backing0) then Panic SliceBoundsOutOfRange
         else
           let result0 = (if startPos > 0 then take (nat startPos) backing0 else [])
           in case contLoop g keywords draws n
                     \<lparr>result = result0, currentPos = startPos, attempts = 0,
                      backing = backing0, sampled = 0\<rparr> of
                Panic p \<Rightarrow> Panic p
              | Returned st \<Rightarrow>
                  if int (length (result st)) < half (maxLength g) \<and> currentPos st < int n then
                    (let remaining = min (maxLength g - int (length (result st)))
                                         (int n - currentPos st)
                     in if \<not> (0 \<le> currentPos st \<and> currentPos st \<le> currentPos st + remaining \<and>
                               currentPos st + remaining \<le> int (length (backing st)))
                        then Panic SliceBoundsOutOfRange
                        else Returned (result st @
                               slice (backing st) (currentPos st) (currentPos st + remaining)))
                  else Returned (result st))"

definition generateThematicContinuation ::
  "AnswerGenerator \<Rightarrow> gostring list \<Rightarrow> nat \<Rightarrow> int \<Rightarrow> gostring list \<Rightarrow> (nat \<Rightarrow> draw) \<Rightarrow>
   gostring outcome" where
  "generateThematicContinuation g tokens spare startPos keywords draws =
     (case continuationTokens g tokens spare startPos keywords draws of
        Panic p \<Rightarrow> Panic p
      | Returned produced \<Rightarrow> Returned (JoinTokens produced))"

text \<open>
  The invariant of the continuation loop for a sentence of \<open>n\<close> tokens: the read position
  stays within the sentence, and the backing array keeps at least the sentence's length.
\<close>

definition contInv :: "nat \<Rightarrow> contState \<Rightarrow> bool" where
  "contInv n st \<longleftrightarrow> 0 \<le> currentPos st \<and> currentPos st \<le> int n \<and> n \<le> length (backing st)"

subsection \<open>Formatting\<close>

text \<open>\<^verbatim>\<open>strings.ReplaceAll(s, old, "")\<close> for a non-empty \<open>old\<close>.\<close>

function removeAll :: "gostring \<Rightarrow> gostring \<Rightarrow> gostring" where
  "removeAll old [] = []"
| "removeAll old (r # s) =
     (if old \<noteq> [] \<and> take (length old) (r # s) = old
      then removeAll old (drop (length old) (r # s))
      else r # removeAll old s)"
  by pat_completeness auto
termination
  by (relation "measure (\<lambda>(old, s). length s)") (auto simp: neq_Nil_conv)

text \<open>The class \<^verbatim>\<open>\s\<close> of Go's regular expressions: tab, line feed, form feed, return, space.\<close>

definition reSpace :: "rune \<Rightarrow> bool" where
  "reSpace r \<longleftrightarrow> r \<in> {0x09, 0x0A, 0x0C, 0x0D, 0x20}"

text \<open>\<^verbatim>\<open>regexp.MustCompile(`\s+`).ReplaceAllString(answer, " ")\<close>.\<close>

function collapseSpaces :: "gostring \<Rightarrow> gostring" where
  "collapseSpaces [] = []"
| "collapseSpaces (r # s) =
     (if reSpace r then 0x20 # collapseSpaces (dropWhile reSpace s)
      else r # collapseSpaces s)"
  by pat_completeness auto
termination
  by (relation "measure length") (auto simp: length_dropWhile_le less_Suc_eq_le)

text \<open>
  \<^verbatim>\<open>regexp.MustCompile(`\s*c\s*`).ReplaceAllString(answer, "c ")\<close> for the rune \<open>c\<close> (the
  comma, then the full stop): leftmost matches, each with all the white space around it.
\<close>

function spaceAfter :: "rune \<Rightarrow> gostring \<Rightarrow> gostring" where
  "spaceAfter c [] = []"
| "spaceAfter c (r # s) =
     (case dropWhile reSpace (r # s) of
        [] \<Rightarrow> r # s
      | r' # rest \<Rightarrow>
          if r' = c then [c, 0x20] @ spaceAfter c (dropWhile reSpace rest)
          else takeWhile reSpace (r # s) @ [r'] @ spaceAfter c rest)"
  by pat_completeness auto
termination
proof (relation "measure (\<lambda>(c, s). length s)")
  show "wf (measure (\<lambda>(c, s). length s))" by simp
next
  fix c :: rune and r s r' rest
  assume d: "dropWhile reSpace (r # s) = r' # rest"
  have "length (r' # rest) \<le> length (r # s)"
    unfolding d [symmetric] by (rule length_dropWhile_le)
  then have l: "length rest \<le> length s" by simp
  have "length (dropWhile reSpace rest) \<le> length rest" by (rule length_dropWhile_le)
  with l show "((c, dropWhile reSpace rest), (c, r # s)) \<in> measure (\<lambda>(c, s). length s)"
    by simp
  from l show "((c, rest), (c, r # s)) \<in> measure (\<lambda>(c, s). length s)" by simp
qed

definition formatAnswer :: "unicode \<Rightarrow> gostring \<Rightarrow> gostring" where
  "formatAnswer u answer =
     (let a1 = removeAll (S ''<start>'') answer;
          a2 = removeAll (S ''<end>'') a1;
          a3 = TrimSpace a2;
          a4 = collapseSpaces a3;
          a5 = spaceAfter 0x2C a4;
          a6 = spaceAfter 0x2E a5;
          a7 = TrimSpace a6;
          a8 = (case a7 of [] \<Rightarrow> [] | r # rest \<Rightarrow> ToUpper u r # rest)
      in if a8 \<noteq> [] \<and> last a8 \<noteq> 0x2E \<and> last a8 \<noteq> 0x21 \<and> last a8 \<noteq> 0x3F
         then a8 @ S ''.'' else a8)"

subsection \<open>Answering a question\<close>

text \<open>
  What the runtime decides during one call of \<^verbatim>\<open>GenerateAnswer\<close>: the order in which
  \<^verbatim>\<open>Search\<close> visits its score map, the spare capacity of the slice of clean tokens,
  and the draws of the sampler.
\<close>

record runtime =
  searchOrder :: "nat list"
  spareCap :: nat
  draws :: "nat \<Rightarrow> draw"

definition generateFromSentence ::
  "unicode \<Rightarrow> AnswerGenerator \<Rightarrow> gostring \<Rightarrow> gostring list \<Rightarrow> runtime \<Rightarrow> gostring outcome" where
  "generateFromSentence u g sentence keywords rt =
     (let tokens = Tokenize u (tokenizer g) sentence;
          cleanTokens = filter (\<lambda>token. token \<noteq> start_token \<and> token \<noteq> end_token) tokens
      in if length cleanTokens = 0 then Returned sentence
         else
           case findThematicStartPosition g cleanTokens keywords of
             Panic p \<Rightarrow> Panic p
           | Returned startPos \<Rightarrow>
               generateThematicContinuation g cleanTokens (spareCap rt) startPos keywords
                 (draws rt))"

text \<open>The two fixed messages, as code points.\<close>

definition please_ask :: gostring where
  "please_ask =
     [0x41F, 0x43E, 0x436, 0x430, 0x43B, 0x443, 0x439, 0x441, 0x442, 0x430, 0x2C, 0x20,
      0x437, 0x430, 0x434, 0x430, 0x439, 0x442, 0x435, 0x20, 0x432, 0x43E, 0x43F, 0x440,
      0x43E, 0x441, 0x2E]"

definition not_found :: gostring where
  "not_found =
     [0x41A, 0x20, 0x441, 0x43E, 0x436, 0x430, 0x43B, 0x435, 0x43D, 0x438, 0x44E, 0x2C, 0x20,
      0x44F, 0x20, 0x43D, 0x435, 0x20, 0x43D, 0x430, 0x448, 0x435, 0x43B, 0x20, 0x438, 0x43D,
      0x444, 0x43E, 0x440, 0x43C, 0x430, 0x446, 0x438, 0x438, 0x20, 0x43F, 0x43E, 0x20, 0x432,
      0x430, 0x448, 0x435, 0x43C, 0x443, 0x20, 0x432, 0x43E, 0x43F, 0x440, 0x43E, 0x441, 0x443,
      0x20, 0x432, 0x20, 0x438, 0x437, 0x443, 0x447, 0x435, 0x43D, 0x43D, 0x43E, 0x43C, 0x20,
      0x43C, 0x430, 0x442, 0x435, 0x440, 0x438, 0x430, 0x43B, 0x435, 0x2E]"

definition searchKeywords :: "unicode \<Rightarrow> AnswerGenerator \<Rightarrow> gostring \<Rightarrow> gostring list" where
  "searchKeywords u g question =
     (let keywords = extractKeywords u g question;
          thematicKeywords = getThematicKeywords g keywords
      in if length thematicKeywords > 0 then thematicKeywords else keywords)"

definition GenerateAnswer ::
  "unicode \<Rightarrow> AnswerGenerator \<Rightarrow> gostring \<Rightarrow> runtime \<Rightarrow> gostring outcome" where
  "GenerateAnswer u g question rt =
     (let keywords = extractKeywords u g question
      in if length keywords = 0 then Returned please_ask
         else
           let searchKeys = searchKeywords u g question;
               relevantSentences = Search (chain g) searchKeys 5 (searchOrder rt)
           in if length relevantSentences = 0 then Returned not_found
              else
                let bestSentence = findBestSentence u g relevantSentences searchKeys
                in case generateFromSentence u g bestSentence searchKeys rt of
                     Panic p \<Rightarrow> Panic p
                   | Returned answer \<Rightarrow> Returned (formatAnswer u answer))"

subsection \<open>Examples\<close>

definition ex_runtime :: runtime where
  "ex_runtime = \<lparr>searchOrder = [], spareCap = 0,
     draws = (\<lambda>k. \<lparr>rnd = 0, visit1 = [], visit2 = []\<rparr>)\<rparr>"

definition ex_long_model :: MarkovChain where
  "ex_long_model =
     \<lparr>Order = 2,
      Chain = [(S ''[<start>]'', [(S ''a'', 1)]), (S ''[a]'', [(S ''b'', 1)]),
               (S ''[b]'', [(S ''c'', 1)]), (S ''[c]'', [(S ''d'', 1)]),
               (S ''[d]'', [(S ''<end>'', 1)])],
      Sums = [(S ''[<start>]'', 1), (S ''[a]'', 1), (S ''[b]'', 1), (S ''[c]'', 1),
              (S ''[d]'', 1)],
      Index = [(S ''a'', [S ''<start> a b c d <end>'']), (S ''b'', [S ''<start> a b c d <end>'']),
               (S ''c'', [S ''<start> a b c d <end>'']), (S ''d'', [S ''<start> a b c d <end>''])],
      Vocab = [(S ''a'', 1), (S ''b'', 1), (S ''c'', 1), (S ''d'', 1)],
      Topics = []\<rparr>"

definition ex_short_config :: Config where
  "ex_short_config = \<lparr>MaxLength = 2, UsePunctuation = True, MaxThematicEntropy = 2\<rparr>"

definition ex_short_generator :: AnswerGenerator where
  "ex_short_generator = NewAnswerGenerator ex_long_model ex_short_config"



text \<open>
  A model file with \<open>order = 0\<close>, as \<^verbatim>\<open>Load\<close> accepts it (no field is validated).
\<close>

definition ex_order0_model :: MarkovChain where
  "ex_order0_model =
     \<lparr>Order = 0, Chain = [], Sums = [],
      Index = [(S ''cat'', [S ''<start> cat <end>''])],
      Vocab = [(S ''cat'', 1)], Topics = []\<rparr>"

definition ex_order0_generator :: AnswerGenerator where
  "ex_order0_generator = NewAnswerGenerator ex_order0_model ex_gen_config"

section \<open>Properties of the trainer\<close>

lemma sumCounts_sum_list: "sumCounts suffixes = sum_list (map snd suffixes)"
proof -
  have "foldl (\<lambda>total (suffix, count). total + count) a xs = a + sum_list (map snd xs)"
    for a :: int and xs :: "(gostring \<times> int) list"
    by (induction xs arbitrary: a) (auto)
  then show ?thesis by (simp add: sumCounts_def)
qed

lemma map_of_foldl_update:
  "distinct (map fst xs) \<Longrightarrow>
   map_of (foldl (\<lambda>acc (k, v). AList.update k (f v) acc) a xs) k =
     (case map_of xs k of None \<Rightarrow> map_of a k | Some v \<Rightarrow> Some (f v))"
proof (induction xs arbitrary: a)
  case Nil
  then show ?case by simp
next
  case (Cons x xs)
  obtain k' v' where x: "x = (k', v')" by (cases x)
  from Cons.prems have d: "distinct (map fst xs)" and n: "k' \<notin> fst ` set xs"
    by (auto simp: x)
  from n have none: "map_of xs k' = None" by (simp add: map_of_eq_None_iff)
  show ?case
    using Cons.IH [OF d, of "AList.update k' (f v') a"] none
    by (auto simp: x update_conv' split: option.splits)
qed

lemma keys_foldl_update:
  "fst ` set (foldl (\<lambda>acc (k, v). AList.update k (f v) acc) a xs) = fst ` set a \<union> fst ` set xs"
proof (induction xs arbitrary: a)
  case Nil
  then show ?case by simp
next
  case (Cons x xs)
  obtain k' v' where x: "x = (k', v')" by (cases x)
  show ?case
    unfolding x foldl_Cons prod.case Cons.IH dom_update by auto
qed

lemma distinct_foldl_update:
  "distinct (map fst a) \<Longrightarrow>
   distinct (map fst (foldl (\<lambda>acc (k, v). AList.update k (f v) acc) a xs))"
  by (induction xs arbitrary: a) (auto simp: distinct_update split: prod.splits)


lemma set_update_cases:
  "x \<in> set (AList.update k v al) \<Longrightarrow> x = (k, v) \<or> x \<in> set al"
  by (induction al) (auto split: if_splits)

lemma chain_wf_lookup:
  assumes "chain_wf ch" and "map_of ch p = Some suf"
  shows "suf \<noteq> []" and "distinct (map fst suf)" and "\<And>s c. (s, c) \<in> set suf \<Longrightarrow> 1 \<le> c"
proof -
  from assms(2) have "(p, suf) \<in> set ch" by (rule map_of_SomeD)
  with assms(1) have *: "suf \<noteq> [] \<and> distinct (map fst suf) \<and> list_all (\<lambda>(s, c). 1 \<le> c) suf"
    by (auto simp: chain_wf_def list_all_iff)
  then show "suf \<noteq> []" and "distinct (map fst suf)" by simp_all
  show "\<And>s c. (s, c) \<in> set suf \<Longrightarrow> 1 \<le> c"
    using * by (auto simp: list_all_iff)
qed

lemma bump_wf:
  assumes "chain_wf ch"
  shows "chain_wf (bump prefix suffix ch)"
proof -
  define inner where "inner = getList ch prefix"
  define inner' where "inner' = AList.update suffix (get0 inner suffix + 1) inner"
  have b: "bump prefix suffix ch = AList.update prefix inner' ch"
    by (simp add: bump_def inner_def inner'_def Let_def)
  have inner: "distinct (map fst inner) \<and> (\<forall>(s, c) \<in> set inner. 1 \<le> c)"
  proof (cases "map_of ch prefix")
    case None
    then show ?thesis by (simp add: inner_def getList_def)
  next
    case (Some suf)
    with chain_wf_lookup [OF assms Some] show ?thesis
      by (auto simp: inner_def getList_def)
  qed
  have "0 \<le> get0 inner suffix"
  proof (cases "map_of inner suffix")
    case None
    then show ?thesis by (simp add: get0_def)
  next
    case (Some c)
    then have "(suffix, c) \<in> set inner" by (rule map_of_SomeD)
    with inner have "1 \<le> c" by auto
    with Some show ?thesis by (simp add: get0_def)
  qed
  then have inner': "inner' \<noteq> [] \<and> distinct (map fst inner') \<and> (\<forall>(s, c) \<in> set inner'. 1 \<le> c)"
    using inner by (auto simp: inner'_def distinct_update dest!: set_update_cases)
  have "distinct (map fst (AList.update prefix inner' ch))"
    using assms by (simp add: chain_wf_def distinct_update)
  moreover have "\<forall>(p, suf) \<in> set (AList.update prefix inner' ch).
      suf \<noteq> [] \<and> distinct (map fst suf) \<and> list_all (\<lambda>(s, c). 1 \<le> c) suf"
    using assms inner' by (auto simp: chain_wf_def list_all_iff dest!: set_update_cases)
  ultimately show ?thesis
    unfolding b chain_wf_def by (auto simp: list_all_iff)
qed

lemma processLoop_fields:
  "processLoop mc sentence i = Returned mc' \<Longrightarrow>
   Order mc' = Order mc \<and> Sums mc' = Sums mc \<and> Index mc' = Index mc \<and> Vocab mc' = Vocab mc \<and>
   (chain_wf (Chain mc) \<longrightarrow> chain_wf (Chain mc'))"
proof (induction mc sentence i rule: processLoop.induct)
  case (1 mc sentence i)
  show ?case
  proof (cases "i \<le> int (length sentence) - Order mc")
    case False
    with "1.prems" show ?thesis by (simp add: processLoop.simps)
  next
    case True
    show ?thesis
    proof (cases "0 \<le> i \<and> 1 \<le> Order mc")
      case False
      with True "1.prems" show ?thesis
        by (simp add: processLoop.simps [of mc sentence i] split: if_splits)
    next
      case ok: True
      with True have c1: "0 \<le> i \<and> i \<le> i + Order mc - 1 \<and> i + Order mc - 1 \<le> int (length sentence)"
        and c2: "0 \<le> i + Order mc - 1 \<and> i + Order mc - 1 < int (length sentence)"
        by auto
      define mc1 where "mc1 = mc\<lparr>Chain := bump (joinTokens (slice sentence i (i + Order mc - 1)))
        (sentence ! nat (i + Order mc - 1)) (Chain mc)\<rparr>"
      from "1.prems" True c1 c2 have r: "processLoop mc1 sentence (i + 1) = Returned mc'"
        by (simp add: processLoop.simps [of mc sentence i] mc1_def Let_def)
      have ih: "Order mc' = Order mc1 \<and> Sums mc' = Sums mc1 \<and> Index mc' = Index mc1 \<and>
          Vocab mc' = Vocab mc1 \<and> (chain_wf (Chain mc1) \<longrightarrow> chain_wf (Chain mc'))"
        using "1.IH" [OF True _ _ refl refl, of ] c1 c2 r unfolding mc1_def
        by blast
      then show ?thesis by (auto simp: mc1_def bump_wf)
    qed
  qed
qed

lemma processLoop_returns:
  "1 \<le> Order mc \<Longrightarrow> 0 \<le> i \<Longrightarrow> \<exists>mc'. processLoop mc sentence i = Returned mc'"
proof (induction mc sentence i rule: processLoop.induct)
  case (1 mc sentence i)
  show ?case
  proof (cases "i \<le> int (length sentence) - Order mc")
    case False
    then show ?thesis by (simp add: processLoop.simps)
  next
    case True
    with "1.prems" have c1: "0 \<le> i \<and> i \<le> i + Order mc - 1 \<and> i + Order mc - 1 \<le> int (length sentence)"
      and c2: "0 \<le> i + Order mc - 1 \<and> i + Order mc - 1 < int (length sentence)"
      by auto
    have "\<exists>mc'. processLoop (mc\<lparr>Chain := bump (joinTokens (slice sentence i (i + Order mc - 1)))
        (sentence ! nat (i + Order mc - 1)) (Chain mc)\<rparr>) sentence (i + 1) = Returned mc'"
      using "1.IH" [OF True _ _ refl refl] c1 c2 "1.prems" by simp
    then show ?thesis
      using True c1 c2 by (simp add: processLoop.simps [of mc sentence i] Let_def)
  qed
qed


lemma processSentence_fields:
  "processSentence mc sentence = Returned mc' \<Longrightarrow>
   Order mc' = Order mc \<and> Sums mc' = Sums mc \<and> Index mc' = Index mc \<and> Vocab mc' = Vocab mc \<and>
   (chain_wf (Chain mc) \<longrightarrow> chain_wf (Chain mc'))"
  using processLoop_fields [of mc sentence 0 mc']
  by (auto simp: processSentence_def split: if_splits)

lemma processSentence_returns:
  "1 \<le> Order mc \<Longrightarrow> \<exists>mc'. processSentence mc sentence = Returned mc'"
  using processLoop_returns [of mc 0 sentence] by (simp add: processSentence_def)

lemma processSentences_fields:
  "processSentences mc sentences = Returned mc' \<Longrightarrow>
   Order mc' = Order mc \<and> Sums mc' = Sums mc \<and> Index mc' = Index mc \<and> Vocab mc' = Vocab mc \<and>
   (chain_wf (Chain mc) \<longrightarrow> chain_wf (Chain mc'))"
proof (induction sentences arbitrary: mc)
  case Nil
  then show ?case by simp
next
  case (Cons sentence rest)
  from Cons.prems obtain mc1 where 1: "processSentence mc sentence = Returned mc1"
    and 2: "processSentences mc1 rest = Returned mc'"
    by (auto split: outcome.splits)
  from processSentence_fields [OF 1] Cons.IH [OF 2] show ?case by simp
qed

lemma processSentences_returns:
  "1 \<le> Order mc \<Longrightarrow> \<exists>mc'. processSentences mc sentences = Returned mc'"
proof (induction sentences arbitrary: mc)
  case Nil
  then show ?case by simp
next
  case (Cons sentence rest)
  from processSentence_returns [OF Cons.prems] obtain mc1
    where 1: "processSentence mc sentence = Returned mc1" by blast
  with processSentence_fields [OF 1] Cons.prems have "1 \<le> Order mc1" by simp
  from Cons.IH [OF this] 1 show ?case by simp
qed

lemma indexToken_fields:
  "Order (indexToken s mc t) = Order mc \<and> Chain (indexToken s mc t) = Chain mc \<and>
   Sums (indexToken s mc t) = Sums mc"
  by (simp add: indexToken_def)

lemma foldl_indexToken_fields:
  "Order (foldl (indexToken s) mc ts) = Order mc \<and> Chain (foldl (indexToken s) mc ts) = Chain mc \<and>
   Sums (foldl (indexToken s) mc ts) = Sums mc"
  by (induction ts arbitrary: mc) (simp_all add: indexToken_fields)

lemma foldl_indexSentence_fields:
  "Order (foldl indexSentence mc ss) = Order mc \<and> Chain (foldl indexSentence mc ss) = Chain mc \<and>
   Sums (foldl indexSentence mc ss) = Sums mc"
  by (induction ss arbitrary: mc) (simp_all add: indexSentence_def foldl_indexToken_fields)

lemma buildIndexAndVocab_fields:
  "Order (buildIndexAndVocab mc ss) = Order mc \<and> Chain (buildIndexAndVocab mc ss) = Chain mc \<and>
   Sums (buildIndexAndVocab mc ss) = Sums mc"
  by (simp add: buildIndexAndVocab_def Let_def foldl_indexSentence_fields)

lemma calculateSums_invariant:
  assumes "chain_wf (Chain mc)" and "set (map fst (Sums mc)) \<subseteq> set (map fst (Chain mc))"
  shows "sums_invariant (calculateSums mc)" and "Chain (calculateSums mc) = Chain mc"
proof -
  show c: "Chain (calculateSums mc) = Chain mc" by (simp add: calculateSums_def)
  have d: "distinct (map fst (Chain mc))" using assms(1) by (simp add: chain_wf_def)
  have "map_of (Sums (calculateSums mc)) p = Some (sum_list (map snd suf))"
    if "(p, suf) \<in> set (Chain mc)" for p suf
  proof -
    from that d have "map_of (Chain mc) p = Some suf" by simp
    then show ?thesis
      by (simp add: calculateSums_def map_of_foldl_update [OF d] sumCounts_sum_list)
  qed
  moreover have "set (map fst (Sums (calculateSums mc))) = set (map fst (Chain mc))"
    using assms(2) by (auto simp: calculateSums_def keys_foldl_update)
  ultimately show "sums_invariant (calculateSums mc)"
    by (auto simp: sums_invariant_def c list_all_iff)
qed

lemma chain_wf_Nil: "chain_wf []"
  by (simp add: chain_wf_def)

lemma Train_establishes_invariants:
  assumes "Train (NewMarkovTrainer config) tokenizedSentences = Returned (None, mc)"
  shows "chain_wf (Chain mc) \<and> sums_invariant mc"
proof -
  define mc0 where "mc0 = NewMarkovTrainer config"
  define mc1 where "mc1 = buildIndexAndVocab mc0 tokenizedSentences"
  from assms obtain mc2 where 2: "processSentences mc1 tokenizedSentences = Returned mc2"
    and mc: "mc = calculateSums mc2"
    by (auto simp: Train_def mc0_def mc1_def split: if_splits outcome.splits)
  have "Chain mc1 = [] \<and> Sums mc1 = []"
    by (simp add: mc1_def mc0_def buildIndexAndVocab_fields NewMarkovTrainer_def)
  with processSentences_fields [OF 2] have "chain_wf (Chain mc2)" and "Sums mc2 = []"
    by (simp_all add: chain_wf_Nil)
  with calculateSums_invariant [of mc2] show ?thesis by (simp add: mc)
qed

lemma ex_Train: "Train (NewMarkovTrainer ex_config) ex_corpus = Returned (None, ex_model)"
  by code_simp


lemma update_fresh: "k \<notin> fst ` set al \<Longrightarrow> AList.update k v al = al @ [(k, v)]"
  by (induction al) auto

lemma foldl_update_fresh:
  "distinct (map fst xs) \<Longrightarrow> fst ` set xs \<inter> fst ` set a = {} \<Longrightarrow>
   foldl (\<lambda>acc (k, v). AList.update k (f v) acc) a xs = a @ map (\<lambda>(k, v). (k, f v)) xs"
proof (induction xs arbitrary: a)
  case Nil
  then show ?case by simp
next
  case (Cons x xs)
  obtain k v where x: "x = (k, v)" by (cases x)
  from Cons.prems have k: "k \<notin> fst ` set a" and d: "distinct (map fst xs)"
    and kx: "k \<notin> fst ` set xs" and dis: "fst ` set xs \<inter> fst ` set a = {}"
    by (auto simp: x)
  have "fst ` set xs \<inter> fst ` set (a @ [(k, f v)]) = {}"
    using kx dis by auto
  from Cons.IH [OF d this] show ?case
    by (simp add: x update_fresh [OF k])
qed

lemma sum_list_divide:
  "sum_list (map (\<lambda>(k, c). real_of_int c / t) xs) = real_of_int (sum_list (map snd xs)) / t"
  by (induction xs) (auto simp: add_divide_distrib)

lemma GetNextTokens_None: "GetNextTokens mc prefix = None \<longleftrightarrow> joinTokens prefix \<notin> set (map fst (Chain mc))"
  by (auto simp: GetNextTokens_def Let_def map_of_eq_None_iff split: option.splits
      dest: map_of_SomeD intro: rev_image_eqI)

lemma GetNextTokens_Some:
  assumes "chain_wf (Chain mc)" and "map_of (Chain mc) (joinTokens prefix) = Some suffixes"
  shows "GetNextTokens mc prefix =
    Some (map (\<lambda>(suffix, count).
      (suffix, real_of_int count / real_of_int (get0 (Sums mc) (joinTokens prefix)))) suffixes)"
  using chain_wf_lookup(2) [OF assms] assms(2)
  by (simp add: GetNextTokens_def Let_def foldl_update_fresh)

lemma sums_invariant_lookup:
  assumes "chain_wf (Chain mc)" and "sums_invariant mc" and "map_of (Chain mc) p = Some suffixes"
  shows "get0 (Sums mc) p = sum_list (map snd suffixes)" and "1 \<le> sum_list (map snd suffixes)"
proof -
  from assms(3) have "(p, suffixes) \<in> set (Chain mc)" by (rule map_of_SomeD)
  with assms(2) show "get0 (Sums mc) p = sum_list (map snd suffixes)"
    by (auto simp: sums_invariant_def list_all_iff get0_def)
  have "xs \<noteq> [] \<Longrightarrow> (\<forall>(s, c) \<in> set xs. 1 \<le> c) \<Longrightarrow> 1 \<le> sum_list (map snd xs)"
    for xs :: "(gostring \<times> int) list"
  proof (induction xs)
    case Nil
    then show ?case by simp
  next
    case (Cons x xs)
    then show ?case by (cases xs) auto
  qed
  with chain_wf_lookup [OF assms(1,3)] show "1 \<le> sum_list (map snd suffixes)" by blast
qed

text \<open>
  C10. \<^verbatim>\<open>GetNextTokens\<close> returns nil exactly when the key \<open>joinTokens prefix\<close> is absent
  from \<open>Chain\<close>. When the key is present (in a well-formed chain), the result gives every
  recorded successor the weight \<open>count / Sums[key]\<close>; under the invariant of \<open>Sums\<close> these
  weights are positive and add up to exactly 1 (in exact arithmetic).
\<close>

theorem GetNextTokens_distribution:
  "(GetNextTokens mc prefix = None \<longleftrightarrow> joinTokens prefix \<notin> set (map fst (Chain mc))) \<and>
   (chain_wf (Chain mc) \<longrightarrow>
    (\<forall>suffixes. map_of (Chain mc) (joinTokens prefix) = Some suffixes \<longrightarrow>
       (\<exists>probabilities. GetNextTokens mc prefix = Some probabilities \<and>
          probabilities = map (\<lambda>(suffix, count).
             (suffix, real_of_int count / real_of_int (get0 (Sums mc) (joinTokens prefix)))) suffixes \<and>
          (sums_invariant mc \<longrightarrow>
             sum_list (map snd probabilities) = 1 \<and> list_all (\<lambda>(suffix, w). 0 < w) probabilities))))"
proof (intro conjI impI allI)
  show "GetNextTokens mc prefix = None \<longleftrightarrow> joinTokens prefix \<notin> set (map fst (Chain mc))"
    by (rule GetNextTokens_None)
next
  fix suffixes
  assume wf: "chain_wf (Chain mc)" and l: "map_of (Chain mc) (joinTokens prefix) = Some suffixes"
  define t where "t = real_of_int (get0 (Sums mc) (joinTokens prefix))"
  define probabilities where "probabilities = map (\<lambda>(suffix, count). (suffix, real_of_int count / t)) suffixes"
  have g: "GetNextTokens mc prefix = Some probabilities"
    using GetNextTokens_Some [OF wf l] by (simp add: probabilities_def t_def)
  have inv: "sum_list (map snd probabilities) = 1 \<and> list_all (\<lambda>(suffix, w). 0 < w) probabilities"
    if "sums_invariant mc"
  proof -
    from sums_invariant_lookup [OF wf that l]
    have t: "t = real_of_int (sum_list (map snd suffixes))" and pos: "0 < t"
      by (simp_all add: t_def)
    have "map snd probabilities = map (\<lambda>(k, c). real_of_int c / t) suffixes"
      by (auto simp: probabilities_def)
    then have "sum_list (map snd probabilities) = real_of_int (sum_list (map snd suffixes)) / t"
      by (simp add: sum_list_divide)
    with t pos have 1: "sum_list (map snd probabilities) = 1" by simp
    have "0 < real_of_int c / t" if "(s, c) \<in> set suffixes" for s c
      using chain_wf_lookup(3) [OF wf l that] pos by simp
    then have "list_all (\<lambda>(suffix, w). 0 < w) probabilities"
      by (auto simp: probabilities_def list_all_iff)
    with 1 show ?thesis by simp
  qed
  show "\<exists>probabilities. GetNextTokens mc prefix = Some probabilities \<and>
          probabilities = map (\<lambda>(suffix, count).
             (suffix, real_of_int count / real_of_int (get0 (Sums mc) (joinTokens prefix)))) suffixes \<and>
          (sums_invariant mc \<longrightarrow>
             sum_list (map snd probabilities) = 1 \<and> list_all (\<lambda>(suffix, w). 0 < w) probabilities)"
    using g inv by (auto simp: probabilities_def t_def)
qed

lemma ex_model_wf: "chain_wf (Chain ex_model) \<and> sums_invariant ex_model"
  by (simp add: ex_model_def chain_wf_def sums_invariant_def S_def)

theorem GetNextTokens_distribution_witness:
  "chain_wf (Chain ex_model) \<and> sums_invariant ex_model \<and>
   GetNextTokens ex_model [S ''a''] = Some [(S ''b'', 1 / 2), (S ''c'', 1 / 2)] \<and>
   sum_list (map snd [(S ''b'', 1 / 2 :: real), (S ''c'', 1 / 2)]) = 1 \<and>
   GetNextTokens ex_model [S ''z''] = None"
proof -
  have l: "map_of (Chain ex_model) (joinTokens [S ''a'']) = Some [(S ''b'', 1), (S ''c'', 1)]"
    by (simp add: ex_model_def joinTokens_def S_def)
  have s: "get0 (Sums ex_model) (joinTokens [S ''a'']) = 2"
    by (simp add: ex_model_def joinTokens_def S_def get0_def)
  have z: "joinTokens [S ''z''] \<notin> set (map fst (Chain ex_model))"
    by (simp add: ex_model_def joinTokens_def S_def)
  from GetNextTokens_distribution [of ex_model "[S ''a'']"] GetNextTokens_distribution [of ex_model "[S ''z'']"]
    ex_model_wf l s z
  show ?thesis by simp
qed

text \<open>
  C9, as the code has it. On a fresh trainer, \<^verbatim>\<open>Train\<close> returns an error if and only
  if the collection of tokenized sentences is empty; the model is then returned as it
  was initialised, with empty \<open>Chain\<close>, \<open>Sums\<close>, \<open>Index\<close> and \<open>Vocab\<close>. When the order
  is at least 1, \<^verbatim>\<open>Train\<close> succeeds on every non-empty collection.
\<close>

theorem Train_error_iff_empty:
  "((\<exists>e mc'. Train (NewMarkovTrainer config) tokenizedSentences = Returned (Some e, mc'))
      \<longleftrightarrow> tokenizedSentences = []) \<and>
   (tokenizedSentences = [] \<longrightarrow>
      Train (NewMarkovTrainer config) tokenizedSentences =
        Returned (Some no_data,
          \<lparr>Order = TrainConfig.Order config, Chain = [], Sums = [], Index = [], Vocab = [],
           Topics = []\<rparr>)) \<and>
   (1 \<le> TrainConfig.Order config \<longrightarrow> tokenizedSentences \<noteq> [] \<longrightarrow>
      (\<exists>mc'. Train (NewMarkovTrainer config) tokenizedSentences = Returned (None, mc')))"
proof (intro conjI impI)
  show "(\<exists>e mc'. Train (NewMarkovTrainer config) tokenizedSentences = Returned (Some e, mc'))
      \<longleftrightarrow> tokenizedSentences = []"
    by (auto simp: Train_def split: outcome.splits)
next
  assume "tokenizedSentences = []"
  then show "Train (NewMarkovTrainer config) tokenizedSentences =
        Returned (Some no_data,
          \<lparr>Order = TrainConfig.Order config, Chain = [], Sums = [], Index = [], Vocab = [],
           Topics = []\<rparr>)"
    by (simp add: Train_def NewMarkovTrainer_def)
next
  assume o: "1 \<le> TrainConfig.Order config" and ne: "tokenizedSentences \<noteq> []"
  have "1 \<le> Order (buildIndexAndVocab (NewMarkovTrainer config) tokenizedSentences)"
    using o by (simp add: buildIndexAndVocab_fields NewMarkovTrainer_def)
  from processSentences_returns [OF this, of tokenizedSentences] ne
  show "\<exists>mc'. Train (NewMarkovTrainer config) tokenizedSentences = Returned (None, mc')"
    by (auto simp: Train_def)
qed

theorem Train_error_iff_empty_witness:
  "1 \<le> TrainConfig.Order ex_config \<and> ex_corpus \<noteq> [] \<and>
   (\<exists>mc'. Train (NewMarkovTrainer ex_config) ex_corpus = Returned (None, mc')) \<and>
   Train (NewMarkovTrainer ex_config) [] = Returned (Some no_data, NewMarkovTrainer ex_config)"
  using Train_error_iff_empty [of ex_config ex_corpus] Train_error_iff_empty [of ex_config "[]"]
  by (simp add: ex_config_def ex_corpus_def NewMarkovTrainer_def)

text \<open>
  C1. After \<^verbatim>\<open>Train\<close> has succeeded on a fresh trainer, \<open>Sums\<close> has exactly the keys of
  \<open>Chain\<close>, and for every prefix key of \<open>Chain\<close> the entry of \<open>Sums\<close> is the sum of the
  successor counts of that prefix (the successor maps having distinct keys, so that the
  sum of the list is the sum over the map).
\<close>

theorem Train_sums_invariant:
  assumes "Train (NewMarkovTrainer config) tokenizedSentences = Returned (None, mc)"
  shows "set (map fst (Sums mc)) = set (map fst (Chain mc)) \<and>
         (\<forall>prefix suffixes. map_of (Chain mc) prefix = Some suffixes \<longrightarrow>
            distinct (map fst suffixes) \<and>
            map_of (Sums mc) prefix = Some (sum_list (map snd suffixes)))"
proof -
  from Train_establishes_invariants [OF assms]
  have wf: "chain_wf (Chain mc)" and inv: "sums_invariant mc" by simp_all
  have "distinct (map fst suffixes) \<and> map_of (Sums mc) prefix = Some (sum_list (map snd suffixes))"
    if l: "map_of (Chain mc) prefix = Some suffixes" for prefix suffixes
  proof -
    from l have "(prefix, suffixes) \<in> set (Chain mc)" by (rule map_of_SomeD)
    with inv have "map_of (Sums mc) prefix = Some (sum_list (map snd suffixes))"
      by (auto simp: sums_invariant_def list_all_iff)
    with chain_wf_lookup(2) [OF wf l] show ?thesis by simp
  qed
  with inv show ?thesis by (simp add: sums_invariant_def)
qed

theorem Train_sums_invariant_witness:
  "Train (NewMarkovTrainer ex_config) ex_corpus = Returned (None, ex_model) \<and>
   set (map fst (Sums ex_model)) = set (map fst (Chain ex_model)) \<and>
   map_of (Chain ex_model) (S ''[a]'') = Some [(S ''b'', 1), (S ''c'', 1)] \<and>
   map_of (Sums ex_model) (S ''[a]'') = Some 2"
proof -
  have l: "map_of (Chain ex_model) (S ''[a]'') = Some [(S ''b'', 1), (S ''c'', 1)]"
    by (simp add: ex_model_def S_def)
  from Train_sums_invariant [OF ex_Train] l ex_Train show ?thesis by auto
qed

text \<open>
  C9 as stated fails without the condition on the order, which no code checks: with
  order 0 the first sentence enters the loop of \<^verbatim>\<open>processSentence\<close> at \<open>i = 0\<close>, and
  \<^verbatim>\<open>sentence[0 : -1]\<close> panics. \<^verbatim>\<open>Train\<close> neither returns an error nor succeeds.
\<close>

theorem Train_order_zero_counterexample:
  "ex_corpus \<noteq> [] \<and>
   Train (NewMarkovTrainer ex_config_order0) ex_corpus = Panic SliceBoundsOutOfRange"
  by (simp add: Train_def ex_corpus_def ex_config_order0_def NewMarkovTrainer_def
      processSentence_def processLoop.simps buildIndexAndVocab_fields)

section \<open>Properties of retrieval\<close>

lemma mset_mapRange: "mset (mapRange order xs) = mset xs"
proof (induction order xs rule: mapRange.induct)
  case (3 i order x xs)
  define j where "j = i mod length (x # xs)"
  have j: "j < length (x # xs)" by (simp add: j_def)
  have "mset (x # xs) = mset (take j (x # xs) @ (x # xs) ! j # drop (Suc j) (x # xs))"
    using id_take_nth_drop [OF j] by simp
  then show ?case
    using "3.IH" [OF j_def [symmetric, THEN sym]] unfolding mapRange.simps Let_def j_def [symmetric]
    by simp
qed simp_all

lemma mapRange_complete: "mset ys = mset xs \<Longrightarrow> \<exists>order. mapRange order xs = ys"
proof (induction ys arbitrary: xs)
  case Nil
  then show ?case by simp
next
  case (Cons y ys)
  then have "y \<in> set xs" by (metis list.set_intros(1) set_mset_mset)
  then obtain j where j: "j < length xs" and y: "xs ! j = y" by (auto simp: in_set_conv_nth)
  then obtain x xs' where xs: "xs = x # xs'" by (cases xs) auto
  have "mset xs = mset (take j xs @ y # drop (Suc j) xs)"
    using id_take_nth_drop [OF j] y by simp
  with Cons.prems have "mset ys = mset (take j xs @ drop (Suc j) xs)" by simp
  from Cons.IH [OF this] obtain order where "mapRange order (take j xs @ drop (Suc j) xs) = ys" ..
  then have "mapRange (j # order) xs = y # ys"
    using j y unfolding xs by (simp add: Let_def del: take_Suc_Cons drop_Suc_Cons nth_Cons_Suc)
  then show ?case ..
qed


lemma get0_Nil: "get0 [] k = 0"
  by (simp add: get0_def)

lemma get0_update: "get0 (AList.update k v m) k' = (if k' = k then v else get0 m k')"
  by (simp add: get0_def update_conv')

lemma addScores_get0: "get0 (addScores scores sentences) s = get0 scores s + int (count_list sentences s)"
  unfolding addScores_def
  by (induction sentences arbitrary: scores) (simp_all add: get0_update)

lemma addScores_distinct: "distinct (map fst scores) \<Longrightarrow> distinct (map fst (addScores scores sentences))"
  unfolding addScores_def
  by (induction sentences arbitrary: scores) (simp_all add: distinct_update)

lemma addScores_positive:
  "list_all (\<lambda>(s, c). 1 \<le> c) scores \<Longrightarrow> list_all (\<lambda>(s, c). 1 \<le> c) (addScores scores sentences)"
  unfolding addScores_def
proof (induction sentences arbitrary: scores)
  case Nil
  then show ?case by simp
next
  case (Cons a sentences)
  have "0 \<le> get0 scores a"
  proof (cases "map_of scores a")
    case None
    then show ?thesis by (simp add: get0_def)
  next
    case (Some c)
    then have "(a, c) \<in> set scores" by (rule map_of_SomeD)
    with Cons.prems Some show ?thesis by (auto simp: get0_def list_all_iff)
  qed
  with Cons.prems have "list_all (\<lambda>(s, c). 1 \<le> c) (AList.update a (get0 scores a + 1) scores)"
    by (auto simp: list_all_iff dest!: set_update_cases)
  from Cons.IH [OF this] show ?case by simp
qed


lemma scoreStep_get0:
  "get0 (scoreStep mc scores k) s = get0 scores s + int (count_list (getList (Index mc) k) s)"
  by (simp add: scoreStep_def getList_def addScores_get0 split: option.splits)

lemma foldl_scoreStep_get0:
  "get0 (foldl (scoreStep mc) scores kws) s =
   get0 scores s + (\<Sum>k\<leftarrow>kws. int (count_list (getList (Index mc) k) s))"
  by (induction kws arbitrary: scores) (simp_all add: scoreStep_get0)

lemma foldl_scoreStep_wf:
  "distinct (map fst scores) \<Longrightarrow> list_all (\<lambda>(s, c). 1 \<le> c) scores \<Longrightarrow>
   distinct (map fst (foldl (scoreStep mc) scores kws)) \<and>
   list_all (\<lambda>(s, c). 1 \<le> c) (foldl (scoreStep mc) scores kws)"
  by (induction kws arbitrary: scores)
     (auto simp: scoreStep_def addScores_distinct addScores_positive split: option.splits)

lemma sentenceScores_alt: "sentenceScores mc kws = foldl (scoreStep mc) [] kws"
  by (simp add: sentenceScores_def scoreStep_def [abs_def])

lemma sentenceScores_get0:
  "get0 (sentenceScores mc kws) s = (\<Sum>k\<leftarrow>kws. int (count_list (getList (Index mc) k) s))"
  by (simp add: sentenceScores_alt foldl_scoreStep_get0 get0_Nil)

lemma sentenceScores_wf:
  "distinct (map fst (sentenceScores mc kws))"
  "list_all (\<lambda>(s, c). 1 \<le> c) (sentenceScores mc kws)"
  using foldl_scoreStep_wf [of "[]" mc kws] by (simp_all add: sentenceScores_alt)

lemma index_wf_getList: "index_wf index \<Longrightarrow> distinct (getList index k)"
proof (cases "map_of index k")
  case None
  then show ?thesis by (simp add: getList_def)
next
  case (Some ss)
  assume "index_wf index"
  moreover from Some have "(k, ss) \<in> set index" by (rule map_of_SomeD)
  ultimately show ?thesis using Some by (auto simp: index_wf_def list_all_iff getList_def)
qed

lemma count_list_distinct: "distinct xs \<Longrightarrow> count_list xs x = (if x \<in> set xs then 1 else 0)"
  by (induction xs) auto

lemma sum_list_indicator:
  "(\<Sum>k\<leftarrow>ks. int (if P k then 1 else 0)) = int (length (filter P ks))"
  by (induction ks) auto

lemma sentenceScores_matching:
  assumes "index_wf (Index mc)" and "distinct kws"
  shows "get0 (sentenceScores mc kws) s = int (card (matching mc kws s))"
proof -
  have "get0 (sentenceScores mc kws) s =
      (\<Sum>k\<leftarrow>kws. int (if s \<in> set (getList (Index mc) k) then 1 else 0))"
    by (simp add: sentenceScores_get0 count_list_distinct [OF index_wf_getList [OF assms(1)]])
  also have "\<dots> = int (length (filter (\<lambda>k. s \<in> set (getList (Index mc) k)) kws))"
    by (rule sum_list_indicator)
  also have "\<dots> = int (card (matching mc kws s))"
  proof -
    have "matching mc kws s = set (filter (\<lambda>k. s \<in> set (getList (Index mc) k)) kws)"
      by (auto simp: matching_def)
    moreover have "distinct (filter (\<lambda>k. s \<in> set (getList (Index mc) k)) kws)"
      using assms(2) by (rule distinct_filter)
    ultimately show ?thesis by (simp only: distinct_card)
  qed
  finally show ?thesis .
qed


lemma sortSlice_any_sorted:
  assumes "mset ys = mset scores" and "sorted_wrt (\<lambda>a b. snd b \<le> snd a) ys"
  shows "\<exists>order. sortSlice (mapRange order scores) = ys"
proof -
  from mapRange_complete [OF assms(1)] obtain order where o: "mapRange order scores = ys" ..
  have "sorted (map (\<lambda>(sentence, score). - score) ys)"
    using assms(2) by (simp add: sorted_map case_prod_beta)
  then have "sortSlice ys = ys"
    unfolding sortSlice_def by (rule sort_key_id_if_sorted)
  with o show ?thesis by auto
qed

lemma sortSlice_props:
  "mset (sortSlice scored) = mset scored"
  "sorted_wrt (\<lambda>a b. snd b \<le> snd a) (sortSlice scored)"
proof -
  show "mset (sortSlice scored) = mset scored" by (simp add: sortSlice_def)
  have "sorted (map (\<lambda>(sentence, score). - score) (sortSlice scored))"
    unfolding sortSlice_def by (rule sorted_sort_key)
  then show "sorted_wrt (\<lambda>a b. snd b \<le> snd a) (sortSlice scored)"
    by (simp add: sorted_map case_prod_beta)
qed

lemma Search_props:
  fixes mc kws limit order
  defines "scores \<equiv> sentenceScores mc kws"
  defines "res \<equiv> Search mc kws limit order"
  shows "length res \<le> nat limit" and "distinct res"
    and "set res \<subseteq> set (map fst scores)"
    and "sorted_wrt (\<lambda>a b. get0 scores b \<le> get0 scores a) res"
    and "\<forall>s \<in> set res. 1 \<le> get0 scores s"
proof -
  define srt where "srt = sortSlice (mapRange order scores)"
  have res: "res = map fst (take (nat limit) srt)"
    by (simp add: res_def Search_def srt_def scores_def Let_def)
  have m: "mset srt = mset scores"
    by (simp add: srt_def sortSlice_props mset_mapRange)
  then have set_eq: "set srt = set scores" by (rule mset_eq_setD)
  have d: "distinct (map fst scores)" by (simp add: scores_def sentenceScores_wf)
  from m have "mset (map fst srt) = mset (map fst scores)" by (metis mset_map)
  with d have ds: "distinct (map fst srt)" by (metis mset_eq_imp_distinct_iff)
  have val: "get0 scores (fst e) = snd e" if "e \<in> set srt" for e
  proof -
    from that set_eq have "(fst e, snd e) \<in> set scores" by simp
    with d have "map_of scores (fst e) = Some (snd e)" by simp
    then show ?thesis by (simp add: get0_def)
  qed
  show "length res \<le> nat limit" by (simp add: res)
  show "distinct res" using ds by (simp add: res take_map [symmetric] distinct_take)
  show sub: "set res \<subseteq> set (map fst scores)"
    using set_eq by (auto simp: res dest: in_set_takeD)
  have "sorted_wrt (\<lambda>a b. snd b \<le> snd a) (take (nat limit) srt)"
    using sortSlice_props(2) [of "mapRange order scores"]
    by (simp add: srt_def sorted_wrt_take)
  then have "sorted_wrt (\<lambda>a b. get0 scores (fst b) \<le> get0 scores (fst a)) (take (nat limit) srt)"
  proof (rule sorted_wrt_mono_rel [rotated])
    fix a b
    assume "a \<in> set (take (nat limit) srt)" and "b \<in> set (take (nat limit) srt)"
      and "snd b \<le> snd a"
    then have "a \<in> set srt" and "b \<in> set srt" and "snd b \<le> snd a"
      by (auto dest: in_set_takeD)
    then show "get0 scores (fst b) \<le> get0 scores (fst a)"
      by (simp add: val)
  qed
  then show "sorted_wrt (\<lambda>a b. get0 scores b \<le> get0 scores a) res"
    by (simp add: res sorted_wrt_map)
  show "\<forall>s \<in> set res. 1 \<le> get0 scores s"
  proof
    fix s assume "s \<in> set res"
    then obtain e where e: "e \<in> set srt" and s: "s = fst e"
      by (auto simp: res dest: in_set_takeD)
    from e set_eq have "(fst e, snd e) \<in> set scores" by simp
    with sentenceScores_wf(2) [of mc kws] have "1 \<le> snd e"
      by (auto simp: scores_def list_all_iff)
    with val [OF e] s show "1 \<le> get0 scores s" by simp
  qed
qed

text \<open>
  C4, as the code has it. On a model whose index holds no sentence twice under one
  token (as \<^verbatim>\<open>Train\<close> builds it, lemma \<open>Train_index_wf\<close>), for distinct keywords, a
  limit \<open>L > 0\<close> and every order in which the runtime may visit the score map,
  \<^verbatim>\<open>Search\<close> returns at most \<open>L\<close> sentences, each once; the score of a returned sentence
  is the number of queried keywords whose index entry contains it (at least one); and
  the list is sorted by non-increasing score. The order of sentences of equal score is
  left unspecified.
\<close>

theorem Search_ranked:
  assumes "distinct kws" and "index_wf (Index mc)" and "0 < limit"
  shows "int (length (Search mc kws limit order)) \<le> limit \<and>
         distinct (Search mc kws limit order) \<and>
         (\<forall>s \<in> set (Search mc kws limit order).
            get0 (sentenceScores mc kws) s = int (card (matching mc kws s)) \<and>
            1 \<le> card (matching mc kws s)) \<and>
         sorted_wrt (\<lambda>a b. card (matching mc kws b) \<le> card (matching mc kws a))
           (Search mc kws limit order)"
proof -
  note p = Search_props [of mc kws limit order]
  note sc = sentenceScores_matching [OF assms(2,1)]
  from p(1) assms(3) have "int (length (Search mc kws limit order)) \<le> limit" by linarith
  moreover have "\<forall>s \<in> set (Search mc kws limit order).
      get0 (sentenceScores mc kws) s = int (card (matching mc kws s)) \<and>
      1 \<le> card (matching mc kws s)"
    using p(5) by (simp add: sc)
  moreover have "sorted_wrt (\<lambda>a b. card (matching mc kws b) \<le> card (matching mc kws a))
      (Search mc kws limit order)"
    using p(4) by (simp add: sc)
  ultimately show ?thesis using p(2) by simp
qed


lemma ex_scores: "sentenceScores ex_model [S ''a''] = [(ex_sentence1, 1), (ex_sentence2, 1)]"
  by (simp add: sentenceScores_def ex_model_def addScores_def get0_def S_def ex_sentence1_def ex_sentence2_def)

theorem Search_ranked_witness:
  "distinct [S ''a'', S ''b''] \<and> index_wf (Index ex_model) \<and>
   Search ex_model [S ''a'', S ''b''] 5 [] = [ex_sentence1, ex_sentence2] \<and>
   card (matching ex_model [S ''a'', S ''b''] ex_sentence2)
     \<le> card (matching ex_model [S ''a'', S ''b''] ex_sentence1)"
proof -
  have d: "distinct [S ''a'', S ''b'']" by (simp add: S_def)
  have w: "index_wf (Index ex_model)" by (simp add: ex_model_def index_wf_def S_def)
  have sc: "sentenceScores ex_model [S ''a'', S ''b''] = [(ex_sentence1, 2), (ex_sentence2, 1)]"
    by (simp add: sentenceScores_def ex_model_def addScores_def get0_def S_def
        ex_sentence1_def ex_sentence2_def)
  have r: "Search ex_model [S ''a'', S ''b''] 5 [] = [ex_sentence1, ex_sentence2]"
    by (simp add: Search_def sc sortSlice_def Let_def)
  from Search_ranked [OF d w, of 5 "[]"] d w r show ?thesis by simp
qed

text \<open>
  C4 as stated fails on the order of ties. The two sentences of the small model are
  indexed under \<open>a\<close> in the order first, second, and both score 1 for the query \<open>a\<close>;
  when the runtime visits the score map from its second entry, \<^verbatim>\<open>Search\<close> returns the
  second sentence before the first.
\<close>

theorem Search_tie_counterexample:
  "getList (Index ex_model) (S ''a'') = [ex_sentence1, ex_sentence2] \<and>
   get0 (sentenceScores ex_model [S ''a'']) ex_sentence1 =
     get0 (sentenceScores ex_model [S ''a'']) ex_sentence2 \<and>
   Search ex_model [S ''a''] 5 [0] = [ex_sentence1, ex_sentence2] \<and>
   Search ex_model [S ''a''] 5 [1] = [ex_sentence2, ex_sentence1]"
  by (simp add: Search_def ex_scores sortSlice_def Let_def get0_def)
     (simp add: ex_model_def getList_def S_def ex_sentence1_def ex_sentence2_def)

lemma uniqueSentences_distinct: "distinct acc \<Longrightarrow> distinct (uniqueSentences acc ss)"
  by (induction ss arbitrary: acc) auto

lemma foldl_indexToken_Index:
  "distinct (map fst (Index mc)) \<Longrightarrow> distinct (map fst (Index (foldl (indexToken s) mc ts)))"
  by (induction ts arbitrary: mc) (simp_all add: indexToken_def distinct_update)

lemma foldl_indexSentence_Index:
  "distinct (map fst (Index mc)) \<Longrightarrow> distinct (map fst (Index (foldl indexSentence mc ss)))"
  by (induction ss arbitrary: mc) (simp_all add: indexSentence_def foldl_indexToken_Index)

lemma buildIndexAndVocab_index_wf:
  assumes "distinct (map fst (Index mc))"
  shows "index_wf (Index (buildIndexAndVocab mc ss))"
proof -
  have "fst \<circ> (\<lambda>(word, ss). (word, uniqueSentences [] ss)) = (fst :: gostring \<times> gostring list \<Rightarrow> gostring)"
    by (auto simp: fun_eq_iff)
  then show ?thesis
    using foldl_indexSentence_Index [OF assms, of ss]
    by (auto simp: buildIndexAndVocab_def Let_def index_wf_def list_all_iff
        uniqueSentences_distinct)
qed

lemma Train_index_wf:
  assumes "Train (NewMarkovTrainer config) tokenizedSentences = Returned (None, mc)"
  shows "index_wf (Index mc)"
proof -
  define mc1 where "mc1 = buildIndexAndVocab (NewMarkovTrainer config) tokenizedSentences"
  from assms obtain mc2 where 2: "processSentences mc1 tokenizedSentences = Returned mc2"
    and mc: "mc = calculateSums mc2"
    by (auto simp: Train_def mc1_def split: if_splits outcome.splits)
  have "index_wf (Index mc1)"
    unfolding mc1_def by (rule buildIndexAndVocab_index_wf) (simp add: NewMarkovTrainer_def)
  with processSentences_fields [OF 2] show ?thesis by (simp add: mc calculateSums_def)
qed


section \<open>Properties of the entropy analysis\<close>

lemma S_eq_iff: "S a = S b \<longleftrightarrow> a = b"
  by (simp add: S_def inj_map_eq_map inj_on_def)

lemma get0_Cons: "get0 ((k', v) # m) k = (if k' = k then v else get0 m k)"
  by (simp add: get0_def)

lemma bump_Nil: "bump t c [] = [(t, [(c, 1)])]"
  by (simp add: bump_def getList_def get0_def)

lemma bump_Cons:
  "bump t c ((k, v) # rest) =
     (if k = t then (t, AList.update c (get0 v c + 1) v) # rest else (k, v) # bump t c rest)"
  by (simp add: bump_def getList_def Let_def)

lemma addWeightedContext_Nil: "addWeightedContext w t c [] = [(t, [(c, w)])]"
  by (simp add: addWeightedContext_def getList_def get0_def)

lemma addWeightedContext_Cons:
  "addWeightedContext w t c ((k, v) # rest) =
     (if k = t then (t, AList.update c (get0 v c + w) v) # rest
      else (k, v) # addWeightedContext w t c rest)"
  by (simp add: addWeightedContext_def getList_def Let_def)

lemmas eval_maps = get0_Nil get0_Cons bump_Nil bump_Cons addWeightedContext_Nil addWeightedContext_Cons

lemma parsePrefix_examples:
  "parsePrefix (S ''[x]'') = [S ''x'']" "parsePrefix (S ''[z]'') = [S ''z'']"
  "parsePrefix (S ''[a]'') = [S ''a'']" "parsePrefix (S ''[b]'') = [S ''b'']"
  "parsePrefix (S ''[c]'') = [S ''c'']" "parsePrefix (S ''[<start>]'') = [S ''<start>'']"
  by (simp_all add: S_def parsePrefix_def TrimPrefix_def TrimSuffix_def TrimSpace_def IsSpace_def)

lemma ex_chain_spec_contexts:
  "spec_tokenContexts ex_chain =
     [(S ''x'', [(S ''x'', 3)]), (S ''y'', [(S ''x'', 3), (S ''z'', 1)]), (S ''z'', [(S ''z'', 1)])]"
  by (simp add: spec_tokenContexts_def ex_chain_def parsePrefix_examples createContextKey_def
      eval_maps S_eq_iff Let_def)

lemma ex_chain_contexts:
  "tokenContexts ex_chain =
     [(S ''x'', [(S ''x'', 1)]), (S ''y'', [(S ''x'', 1), (S ''z'', 1)]), (S ''z'', [(S ''z'', 1)])]"
  by (simp add: tokenContexts_def ex_chain_def parsePrefix_examples createContextKey_def
      addTokenContext_def eval_maps S_eq_iff Let_def)

lemma ex_model_contexts:
  "tokenContexts (Chain ex_model) =
    [(S ''<start>'', [(S ''<start>'', 1)]), (S ''a'', [(S ''<start>'', 1), (S ''a'', 1)]),
     (S ''b'', [(S ''a'', 1), (S ''b'', 1)]), (S ''c'', [(S ''a'', 1), (S ''c'', 1)]),
     (S ''<end>'', [(S ''b'', 1), (S ''c'', 1)])]"
  by (simp add: tokenContexts_def ex_model_def parsePrefix_examples createContextKey_def
      addTokenContext_def eval_maps S_eq_iff Let_def)

lemma calc2: "calculateEntropy [(k1, 1), (k2, 1)] = 1"
  by (simp add: calculateEntropy_def sumCounts_def log_divide)

lemma calc1: "calculateEntropy [(k1, 1)] = 0"
  by (simp add: calculateEntropy_def sumCounts_def)


lemma getList_update: "getList (AList.update k v m) k' = (if k' = k then v else getList m k')"
  by (simp add: getList_def update_conv')

lemma bump_count:
  "get0 (getList (bump t c m) t') c' =
   get0 (getList m t') c' + (if t = t' \<and> c = c' then 1 else 0)"
  by (auto simp: bump_def Let_def getList_update get0_update)

lemma foldl_addTokenContext_count:
  "get0 (getList (foldl (\<lambda>acc token. addTokenContext token pt acc) m ts) t) c =
   get0 (getList m t) c + int (count_list (map (\<lambda>token. (token, createContextKey pt)) ts) (t, c))"
  by (induction ts arbitrary: m) (auto simp: addTokenContext_def bump_count)

lemma foldl_addSuffixContext_count:
  "get0 (getList (foldl (\<lambda>acc (suffix, count). addTokenContext suffix pt acc) m sufs) t) c =
   get0 (getList m t) c +
   int (count_list (map (\<lambda>(suffix, count). (suffix, createContextKey pt)) sufs) (t, c))"
  by (induction sufs arbitrary: m) (auto simp: addTokenContext_def bump_count split: if_splits)


lemma tokenContexts_alt: "tokenContexts ch = foldl contextStep [] ch"
  by (simp add: tokenContexts_def contextStep_def [abs_def])

lemma count_list_append: "count_list (xs @ ys) x = count_list xs x + count_list ys x"
  by (induction xs) auto

lemma foldl_contextStep_count:
  "get0 (getList (foldl contextStep m ch) t) c =
   get0 (getList m t) c + int (count_list (observations ch) (t, c))"
proof (induction ch arbitrary: m)
  case Nil
  then show ?case by (simp add: observations_def)
next
  case (Cons e ch)
  obtain prefix suffixes where e: "e = (prefix, suffixes)" by (cases e)
  have o: "observations (e # ch) =
      map (\<lambda>token. (token, createContextKey (parsePrefix prefix))) (parsePrefix prefix) @
      map (\<lambda>(suffix, count). (suffix, createContextKey (parsePrefix prefix))) suffixes @
      observations ch"
    by (simp add: observations_def e Let_def)
  show ?case
    unfolding foldl_Cons Cons.IH o
    by (simp add: e contextStep_def Let_def foldl_addSuffixContext_count
        foldl_addTokenContext_count count_list_append)
qed

lemma tokenContexts_count:
  "get0 (getList (tokenContexts ch) token) contextKey =
   int (count_list (observations ch) (token, contextKey))"
proof -
  have "getList ([] :: (gostring, (gostring, int) gomap) gomap) token = []"
    by (simp add: getList_def)
  then show ?thesis
    by (simp add: tokenContexts_alt foldl_contextStep_count get0_Nil)
qed

lemma bump_distinct: "distinct (map fst m) \<Longrightarrow> distinct (map fst (bump t c m))"
  by (simp add: bump_def Let_def distinct_update)

lemma foldl_contextStep_distinct:
  "distinct (map fst m) \<Longrightarrow> distinct (map fst (foldl contextStep m ch))"
proof (induction ch arbitrary: m)
  case Nil
  then show ?case by simp
next
  case (Cons e ch)
  obtain prefix suffixes where e: "e = (prefix, suffixes)" by (cases e)
  have 1: "distinct (map fst m) \<Longrightarrow>
      distinct (map fst (foldl (\<lambda>acc token. addTokenContext token pt acc) m ts))" for m pt ts
    by (induction ts arbitrary: m) (simp_all add: addTokenContext_def bump_distinct)
  have 2: "distinct (map fst m) \<Longrightarrow>
      distinct (map fst (foldl (\<lambda>acc (suffix, count). addTokenContext suffix pt acc) m sufs))"
    for m pt and sufs :: "(gostring \<times> int) list"
    by (induction sufs arbitrary: m) (auto simp: addTokenContext_def bump_distinct)
  have "distinct (map fst (contextStep m e))"
    using Cons.prems by (simp add: e contextStep_def Let_def 1 2)
  from Cons.IH [OF this] show ?case by simp
qed

lemma tokenContexts_distinct: "distinct (map fst (tokenContexts ch))"
  by (simp add: tokenContexts_alt foldl_contextStep_distinct)

lemma tokenEntropy_recordEntropy:
  "tokenEntropy (recordEntropy g (token, contexts)) =
   AList.update token (calculateEntropy contexts) (tokenEntropy g)"
  by (simp add: recordEntropy_def Let_def)

lemma tokenEntropy_foldl:
  "distinct (map fst tc) \<Longrightarrow>
   map_of (tokenEntropy (foldl recordEntropy g tc)) t =
     (case map_of tc t of None \<Rightarrow> map_of (tokenEntropy g) t
      | Some contexts \<Rightarrow> Some (calculateEntropy contexts))"
proof (induction tc arbitrary: g)
  case Nil
  then show ?case by simp
next
  case (Cons e tc)
  obtain token contexts where e: "e = (token, contexts)" by (cases e)
  from Cons.prems have d: "distinct (map fst tc)" and n: "token \<notin> fst ` set tc"
    by (auto simp: e)
  from n have none: "map_of tc token = None" by (simp add: map_of_eq_None_iff)
  have "map_of (tokenEntropy (recordEntropy g e)) t =
      (if t = token then Some (calculateEntropy contexts) else map_of (tokenEntropy g) t)"
    by (simp add: e tokenEntropy_recordEntropy update_conv')
  then show ?case
    using Cons.IH [OF d, of "recordEntropy g e"] none
    by (cases "t = token") (simp_all add: e split: option.splits)
qed

lemma tokenEntropy_NewAnswerGenerator:
  "map_of (tokenEntropy (NewAnswerGenerator mc config)) token =
   map_option calculateEntropy (map_of (tokenContexts (Chain mc)) token)"
proof -
  define g0 where "g0 = \<lparr>chain = mc,
        tokenizer = NewTokenizer \<lparr>KeepPunctuation = UsePunctuation config, ToLowerCase = True\<rparr>,
        maxLength = MaxLength config, tokenEntropy = [], minEntropy = MaxFloat64,
        maxEntropy = - MaxFloat64\<rparr>"
  have g: "NewAnswerGenerator mc config = foldl recordEntropy g0 (tokenContexts (Chain mc))"
    by (simp add: NewAnswerGenerator_def analyzeEntropy_def g0_def)
  have "tokenEntropy g0 = []" by (simp add: g0_def)
  then show ?thesis
    unfolding g tokenEntropy_foldl [OF tokenContexts_distinct]
    by (simp split: option.splits)
qed

lemma calculateEntropy_Shannon:
  assumes "sumCounts contexts \<noteq> 0"
  shows "calculateEntropy contexts =
    - (\<Sum>(key, count)\<leftarrow>contexts.
         (real_of_int count / real_of_int (sumCounts contexts)) *
         log 2 (real_of_int count / real_of_int (sumCounts contexts)))"
proof -
  have "foldl (\<lambda>entropy (key, count).
          let probability = real_of_int count / t in entropy - probability * log 2 probability) e xs =
        e - (\<Sum>(key, count)\<leftarrow>xs. (real_of_int count / t) * log 2 (real_of_int count / t))"
    for e t and xs :: "(gostring \<times> int) list"
    by (induction xs arbitrary: e) (auto simp: Let_def)
  with assms show ?thesis by (simp add: calculateEntropy_def Let_def)
qed


text \<open>
  C2, as the code has it. Every observation increments the histogram of its token by
  exactly 1, whatever the transition count: the entry of token and context key counts
  the observations, one for each token of a parsed prefix key and one for each successor
  recorded under a prefix key, with the context key of that prefix. The recorded entropy
  of a token is \<open>calculateEntropy\<close> of its histogram, the Shannon entropy in bits of the
  normalized histogram.
\<close>

theorem analyzeEntropy_flat_counts:
  "(\<forall>token contextKey.
      get0 (getList (tokenContexts (Chain mc)) token) contextKey =
        int (count_list (observations (Chain mc)) (token, contextKey))) \<and>
   (\<forall>token.
      map_of (tokenEntropy (NewAnswerGenerator mc config)) token =
        map_option calculateEntropy (map_of (tokenContexts (Chain mc)) token)) \<and>
   (\<forall>contexts. sumCounts contexts \<noteq> 0 \<longrightarrow>
      calculateEntropy contexts =
        - (\<Sum>(key, count)\<leftarrow>contexts.
             (real_of_int count / real_of_int (sumCounts contexts)) *
             log 2 (real_of_int count / real_of_int (sumCounts contexts))))"
  by (simp add: tokenContexts_count tokenEntropy_NewAnswerGenerator calculateEntropy_Shannon)

theorem analyzeEntropy_flat_counts_witness:
  "get0 (getList (tokenContexts ex_chain) (S ''y'')) (S ''x'') = 1 \<and>
   count_list (observations ex_chain) (S ''y'', S ''x'') = 1 \<and>
   sumCounts [(S ''x'', 1), (S ''z'', 1)] \<noteq> 0 \<and>
   map_of (tokenEntropy (NewAnswerGenerator ex_chain_model ex_gen_config)) (S ''y'') = Some 1"
proof -
  note t = analyzeEntropy_flat_counts [of ex_chain_model ex_gen_config]
  have c: "Chain ex_chain_model = ex_chain" by (simp add: ex_chain_model_def)
  have h: "get0 (getList (tokenContexts ex_chain) (S ''y'')) (S ''x'') = 1"
    by (simp add: ex_chain_contexts getList_def get0_def S_def)
  have l: "map_of (tokenContexts ex_chain) (S ''y'') = Some [(S ''x'', 1), (S ''z'', 1)]"
    by (simp add: ex_chain_contexts S_def)
  have s: "sumCounts [(S ''x'', 1), (S ''z'', 1)] \<noteq> 0" by (simp add: sumCounts_def)
  from t [THEN conjunct1, rule_format, of "S ''y''" "S ''x''"] h
  have 1: "count_list (observations ex_chain) (S ''y'', S ''x'') = 1" by (simp add: c)
  from t [THEN conjunct2, THEN conjunct1, rule_format, of "S ''y''"]
  have 2: "map_of (tokenEntropy (NewAnswerGenerator ex_chain_model ex_gen_config)) (S ''y'') = Some 1"
    by (simp add: c l calc2)
  from h 1 s 2 show ?thesis by simp
qed

text \<open>
  C2 as stated fails: the chain entry from prefix \<open>[x]\<close> to successor \<open>y\<close> has count 3
  and is the only observation of \<open>y\<close> in the context \<open>x\<close>; the code records 1 for it,
  the histogram weighted by the transition count would hold 3.
\<close>

theorem analyzeEntropy_weight_counterexample:
  "get0 (getList ex_chain (S ''[x]'')) (S ''y'') = 3 \<and>
   get0 (getList (tokenContexts ex_chain) (S ''y'')) (S ''x'') = 1 \<and>
   get0 (getList (spec_tokenContexts ex_chain) (S ''y'')) (S ''x'') = 3"
  by (simp add: ex_chain_contexts ex_chain_spec_contexts)
     (simp add: ex_chain_def getList_def get0_def S_def)

lemma isThematicToken_ignores_config:
  "isThematicToken (NewAnswerGenerator mc (config\<lparr>MaxThematicEntropy := x\<rparr>)) token =
   isThematicToken (NewAnswerGenerator mc config) token"
  by (simp add: isThematicToken_def tokenEntropy_NewAnswerGenerator)

text \<open>
  C7. The generator is built with the threshold \<open>MaxThematicEntropy = 1/2\<close>; the token
  \<open>y\<close> has the recorded entropy 1, which is not below that threshold, and is classified
  as thematic all the same: \<^verbatim>\<open>isThematicToken\<close> compares with the constant 2.0, and
  \<^verbatim>\<open>NewAnswerGenerator\<close> never reads the configured value.
\<close>

theorem isThematicToken_fixed_threshold:
  "MaxThematicEntropy ex_gen_config = 1 / 2 \<and>
   map_of (tokenEntropy (NewAnswerGenerator ex_chain_model ex_gen_config)) (S ''y'') = Some 1 \<and>
   isThematicToken (NewAnswerGenerator ex_chain_model ex_gen_config) (S ''y'')"
proof -
  have l: "map_of (tokenContexts (Chain ex_chain_model)) (S ''y'') = Some [(S ''x'', 1), (S ''z'', 1)]"
    by (simp add: ex_chain_model_def ex_chain_contexts S_def)
  have e: "map_of (tokenEntropy (NewAnswerGenerator ex_chain_model ex_gen_config)) (S ''y'') = Some 1"
    by (simp add: tokenEntropy_NewAnswerGenerator l calc2)
  then show ?thesis by (simp add: isThematicToken_def ex_gen_config_def)
qed

section \<open>Properties of the sampler\<close>

lemma selectLoop_first:
  "xs \<noteq> [] \<Longrightarrow> r \<le> c + sum_list (map snd xs) \<Longrightarrow>
   \<exists>i<length xs. selectLoop r c xs = Some (fst (xs ! i)) \<and>
      r \<le> c + sum_list (map snd (take (Suc i) xs)) \<and>
      (\<forall>j<i. c + sum_list (map snd (take (Suc j) xs)) < r)"
proof (induction xs arbitrary: c)
  case Nil
  then show ?case by simp
next
  case (Cons x xs)
  obtain token prob where x: "x = (token, prob)" by (cases x)
  show ?case
  proof (cases "r \<le> c + prob")
    case True
    then have "selectLoop r c (x # xs) = Some (fst ((x # xs) ! 0)) \<and>
      r \<le> c + sum_list (map snd (take (Suc 0) (x # xs))) \<and>
      (\<forall>j<0. c + sum_list (map snd (take (Suc j) (x # xs))) < r)"
      by (simp add: x)
    then show ?thesis by blast
  next
    case False
    from Cons.prems have r: "r \<le> (c + prob) + sum_list (map snd xs)" by (simp add: x add.assoc)
    with False have "xs \<noteq> []" by auto
    from Cons.IH [OF this r] obtain i where i: "i < length xs"
      and s: "selectLoop r (c + prob) xs = Some (fst (xs ! i))"
      and le: "r \<le> (c + prob) + sum_list (map snd (take (Suc i) xs))"
      and lt: "\<forall>j<i. (c + prob) + sum_list (map snd (take (Suc j) xs)) < r"
      by blast
    have "\<forall>j<Suc i. c + sum_list (map snd (take (Suc j) (x # xs))) < r"
    proof (intro allI impI)
      fix j assume "j < Suc i"
      show "c + sum_list (map snd (take (Suc j) (x # xs))) < r"
      proof (cases j)
        case 0
        with False show ?thesis by (simp add: x)
      next
        case (Suc k)
        with \<open>j < Suc i\<close> lt show ?thesis by (simp add: x add.assoc)
      qed
    qed
    with i s le False have "Suc i < length (x # xs) \<and>
      selectLoop r c (x # xs) = Some (fst ((x # xs) ! Suc i)) \<and>
      r \<le> c + sum_list (map snd (take (Suc (Suc i)) (x # xs))) \<and>
      (\<forall>j<Suc i. c + sum_list (map snd (take (Suc j) (x # xs))) < r)"
      by (simp add: x add.assoc)
    then show ?thesis by blast
  qed
qed


lemma sum_list_mapRange:
  fixes xs :: "(gostring \<times> real) list"
  shows "sum_list (map snd (mapRange order xs)) = sum_list (map snd xs)"
proof -
  have "mset (map snd (mapRange order xs)) = mset (map snd xs)"
    by (simp add: mset_mapRange)
  then show ?thesis by (metis sum_mset_sum_list)
qed

text \<open>
  C3, as the code has it. For every non-empty map of weighted candidates, every order
  in which the runtime visits it and every drawn \<open>r\<close> not above the total weight (so
  every \<open>r\<close> in \<open>[0, 1)\<close> when the weights add up to 1), the sampler accumulates the weights
  in the order of the visit and returns the first candidate whose cumulative weight is
  at least \<open>r\<close>. The order of the visit is an input, not fixed by the sampler.
\<close>

theorem selectNextToken_first_cumulative:
  assumes "probabilities \<noteq> []"
    and "rnd d \<le> sum_list (map snd probabilities)"
  shows "\<exists>i<length probabilities.
           selectNextToken probabilities d = fst (mapRange (visit1 d) probabilities ! i) \<and>
           rnd d \<le> sum_list (map snd (take (Suc i) (mapRange (visit1 d) probabilities))) \<and>
           (\<forall>j<i. sum_list (map snd (take (Suc j) (mapRange (visit1 d) probabilities))) < rnd d)"
proof -
  define visited where "visited = mapRange (visit1 d) probabilities"
  have m: "mset visited = mset probabilities" by (simp add: visited_def mset_mapRange)
  then have l: "length visited = length probabilities" by (metis size_mset)
  with assms(1) have ne: "visited \<noteq> []" by auto
  have "rnd d \<le> 0 + sum_list (map snd visited)"
    using assms(2) by (simp add: visited_def sum_list_mapRange)
  from selectLoop_first [OF ne this] obtain i where "i < length visited"
    and "selectLoop (rnd d) 0 visited = Some (fst (visited ! i))"
    and "rnd d \<le> sum_list (map snd (take (Suc i) visited))"
    and "\<forall>j<i. sum_list (map snd (take (Suc j) visited)) < rnd d"
    by auto
  then show ?thesis
    unfolding visited_def [symmetric] l [symmetric]
    by (auto simp: selectNextToken_def visited_def)
qed

theorem selectNextToken_first_cumulative_witness:
  "ex_candidates \<noteq> [] \<and>
   rnd \<lparr>rnd = 3 / 4, visit1 = [], visit2 = []\<rparr> \<le> sum_list (map snd ex_candidates) \<and>
   selectNextToken ex_candidates \<lparr>rnd = 3 / 4, visit1 = [], visit2 = []\<rparr> = S ''b''"
proof -
  have "ex_candidates \<noteq> []" and "rnd \<lparr>rnd = 3 / 4, visit1 = [], visit2 = []\<rparr> \<le> sum_list (map snd ex_candidates)"
    by (simp_all add: ex_candidates_def)
  from selectNextToken_first_cumulative [OF this] this
  show ?thesis
    by (simp add: selectNextToken_def ex_candidates_def)
qed

text \<open>
  C3 as stated fails: the order of the visit is not fixed. For the same two candidates
  of weight 1/2 and the same draw 1/4, the sampler returns \<open>a\<close> when the runtime visits
  \<open>a\<close> first and \<open>b\<close> when it visits \<open>b\<close> first.
\<close>

theorem selectNextToken_order_counterexample:
  "selectNextToken ex_candidates \<lparr>rnd = 1 / 4, visit1 = [0], visit2 = []\<rparr> = S ''a'' \<and>
   selectNextToken ex_candidates \<lparr>rnd = 1 / 4, visit1 = [1], visit2 = []\<rparr> = S ''b''"
  by (simp add: selectNextToken_def ex_candidates_def)

section \<open>Properties of the selection of the best sentence\<close>

lemma recordEntropy_fields:
  "chain (recordEntropy g e) = chain g \<and> tokenizer (recordEntropy g e) = tokenizer g \<and>
   maxLength (recordEntropy g e) = maxLength g"
  by (cases e) (simp add: recordEntropy_def Let_def)

lemma foldl_recordEntropy_fields:
  "chain (foldl recordEntropy g tc) = chain g \<and> tokenizer (foldl recordEntropy g tc) = tokenizer g \<and>
   maxLength (foldl recordEntropy g tc) = maxLength g"
  by (induction tc arbitrary: g) (simp_all add: recordEntropy_fields)

lemma NewAnswerGenerator_fields:
  "chain (NewAnswerGenerator mc config) = mc"
  "tokenizer (NewAnswerGenerator mc config) = \<lparr>keepPunctuation = UsePunctuation config\<rparr>"
  "maxLength (NewAnswerGenerator mc config) = MaxLength config"
  by (simp_all add: NewAnswerGenerator_def analyzeEntropy_def foldl_recordEntropy_fields
      NewTokenizer_def)

lemma Tokenize_ex_best:
  "Tokenize ascii \<lparr>keepPunctuation = True\<rparr> ex_best1 = [S ''<start>'', S ''a'', S ''b'', S ''<end>'']"
  "Tokenize ascii \<lparr>keepPunctuation = True\<rparr> ex_best2 =
     [S ''<start>'', S ''a'', S ''a'', S ''a'', S ''<end>'']"
  by (simp_all add: Tokenize_def ex_best1_def ex_best2_def S_def ascii_def IsSpace_def
      punctuationRegex_def wordRune_def addSpecialTokens_def start_token_def end_token_def Let_def)

lemma argmax_foldl:
  fixes f :: "'a \<Rightarrow> int"
  assumes "foldl (\<lambda>(bs, bx) x. if f x > bs then (f x, x) else (bs, bx)) (b0, x0) xs = (b, x)"
  shows "(b = b0 \<and> x = x0 \<and> (\<forall>y \<in> set xs. f y \<le> b0)) \<or>
         (\<exists>i<length xs. x = xs ! i \<and> b = f (xs ! i) \<and> b0 < b \<and>
            (\<forall>j<length xs. f (xs ! j) \<le> b) \<and> (\<forall>j<i. f (xs ! j) < b))"
  using assms
proof (induction xs arbitrary: b x rule: rev_induct)
  case Nil
  then show ?case by simp
next
  case (snoc y xs)
  obtain b1 x1 where f1: "foldl (\<lambda>(bs, bx) x. if f x > bs then (f x, x) else (bs, bx)) (b0, x0) xs = (b1, x1)"
    by (cases "foldl (\<lambda>(bs, bx) x. if f x > bs then (f x, x) else (bs, bx)) (b0, x0) xs")
  note ih = snoc.IH [OF f1]
  have le1: "\<forall>j<length xs. f (xs ! j) \<le> b1" and b01: "b0 \<le> b1"
    using ih by (auto simp: all_set_conv_all_nth)
  show ?case
  proof (cases "f y > b1")
    case True
    with snoc.prems f1 have bx: "b = f y" "x = y" by auto
    have "length xs < length (xs @ [y]) \<and> x = (xs @ [y]) ! length xs \<and> b = f ((xs @ [y]) ! length xs) \<and>
        b0 < b \<and> (\<forall>j<length (xs @ [y]). f ((xs @ [y]) ! j) \<le> b) \<and>
        (\<forall>j<length xs. f ((xs @ [y]) ! j) < b)"
      using True bx le1 b01 by (auto simp: nth_append less_Suc_eq)
    then show ?thesis by blast
  next
    case False
    with snoc.prems f1 have bx: "b = b1" "x = x1" by auto
    from ih show ?thesis
    proof
      assume "b1 = b0 \<and> x1 = x0 \<and> (\<forall>y \<in> set xs. f y \<le> b0)"
      with False bx show ?thesis by auto
    next
      assume "\<exists>i<length xs. x1 = xs ! i \<and> b1 = f (xs ! i) \<and> b0 < b1 \<and>
            (\<forall>j<length xs. f (xs ! j) \<le> b1) \<and> (\<forall>j<i. f (xs ! j) < b1)"
      then obtain i where i: "i < length xs" "x1 = xs ! i" "b1 = f (xs ! i)" "b0 < b1"
        "\<forall>j<length xs. f (xs ! j) \<le> b1" "\<forall>j<i. f (xs ! j) < b1" by blast
      have "i < length (xs @ [y]) \<and> x = (xs @ [y]) ! i \<and> b = f ((xs @ [y]) ! i) \<and> b0 < b \<and>
          (\<forall>j<length (xs @ [y]). f ((xs @ [y]) ! j) \<le> b) \<and> (\<forall>j<i. f ((xs @ [y]) ! j) < b)"
        using i False bx by (auto simp: nth_append less_Suc_eq)
      then show ?thesis by blast
    qed
  qed
qed


lemma matchScore_nonneg: "0 \<le> matchScore tokens kws"
  by (simp add: matchScore_def)

text \<open>
  C5, as the code has it. Among a non-empty list of candidates, \<^verbatim>\<open>findBestSentence\<close>
  returns the sentence with the greatest score, the score being the number of tokens of
  the re-tokenized sentence (repetitions counted) that equal some search keyword; among
  the candidates with the greatest score, the first one is returned.
\<close>

theorem findBestSentence_first_max:
  assumes "sentences \<noteq> []"
  shows "\<exists>i<length sentences.
           findBestSentence u g sentences kws = sentences ! i \<and>
           (\<forall>j<length sentences.
              matchScore (Tokenize u (tokenizer g) (sentences ! j)) kws
                \<le> matchScore (Tokenize u (tokenizer g) (sentences ! i)) kws) \<and>
           (\<forall>j<i.
              matchScore (Tokenize u (tokenizer g) (sentences ! j)) kws
                < matchScore (Tokenize u (tokenizer g) (sentences ! i)) kws)"
proof -
  define f where "f = (\<lambda>sentence. matchScore (Tokenize u (tokenizer g) sentence) kws)"
  have step: "betterSentence u g kws = (\<lambda>(bs, bx) x. if f x > bs then (f x, x) else (bs, bx))"
    by (auto simp: betterSentence_def f_def fun_eq_iff Let_def)
  obtain b x where fold: "foldl (\<lambda>(bs, bx) x. if f x > bs then (f x, x) else (bs, bx))
      (- 1, sentences ! 0) sentences = (b, x)"
    by (cases "foldl (\<lambda>(bs, bx) x. if f x > bs then (f x, x) else (bs, bx))
      (- 1, sentences ! 0) sentences")
  have r: "findBestSentence u g sentences kws = x"
    using assms by (simp add: findBestSentence_def step fold)
  from assms obtain s0 where "s0 \<in> set sentences" by (cases sentences) auto
  moreover have "0 \<le> f s0" by (simp add: f_def matchScore_nonneg)
  ultimately have "\<not> (\<forall>y \<in> set sentences. f y \<le> - 1)" by force
  with argmax_foldl [OF fold] obtain i where "i < length sentences" "x = sentences ! i"
    "b = f (sentences ! i)" "\<forall>j<length sentences. f (sentences ! j) \<le> b"
    "\<forall>j<i. f (sentences ! j) < b"
    by blast
  then show ?thesis unfolding r f_def by blast
qed

lemma ex_best_scores:
  "matchScore (Tokenize ascii \<lparr>keepPunctuation = True\<rparr> ex_best1) [S ''a'', S ''b''] = 2"
  "matchScore (Tokenize ascii \<lparr>keepPunctuation = True\<rparr> ex_best2) [S ''a'', S ''b''] = 3"
  by (simp_all add: Tokenize_ex_best matchScore_def S_eq_iff)

theorem findBestSentence_first_max_witness:
  "[ex_best1, ex_best2, ex_best2] \<noteq> [] \<and>
   findBestSentence ascii (NewAnswerGenerator ex_chain_model ex_gen_config)
     [ex_best1, ex_best2, ex_best2] [S ''a'', S ''b''] = ex_best2"
proof -
  define g where "g = NewAnswerGenerator ex_chain_model ex_gen_config"
  define ss where "ss = [ex_best1, ex_best2, ex_best2]"
  have ne: "ss \<noteq> []" by (simp add: ss_def)
  have t: "tokenizer g = \<lparr>keepPunctuation = True\<rparr>"
    by (simp add: g_def NewAnswerGenerator_fields ex_gen_config_def)
  from findBestSentence_first_max [OF ne, of ascii g "[S ''a'', S ''b'']"]
  obtain i where i: "i < length ss"
    and r: "findBestSentence ascii g ss [S ''a'', S ''b''] = ss ! i"
    and m: "\<forall>j<length ss. matchScore (Tokenize ascii (tokenizer g) (ss ! j)) [S ''a'', S ''b'']
                \<le> matchScore (Tokenize ascii (tokenizer g) (ss ! i)) [S ''a'', S ''b'']"
    by blast
  have "i \<noteq> 0"
  proof
    assume "i = 0"
    with m [rule_format, of 1] show False
      by (simp add: ss_def t ex_best_scores)
  qed
  with i have "i = 1 \<or> i = 2" by (auto simp: ss_def less_Suc_eq)
  with r have "findBestSentence ascii g ss [S ''a'', S ''b''] = ex_best2"
    by (auto simp: ss_def)
  with ne show ?thesis by (simp add: g_def ss_def)
qed

text \<open>
  C5 as stated fails: with the keywords \<open>a\<close> and \<open>b\<close>, the first candidate contains two
  distinct keywords and the second only one, three times; the second scores 3 against
  2 and is returned.
\<close>

theorem findBestSentence_distinct_counterexample:
  "spec_keywordCount (Tokenize ascii \<lparr>keepPunctuation = True\<rparr> ex_best1) [S ''a'', S ''b''] = 2 \<and>
   spec_keywordCount (Tokenize ascii \<lparr>keepPunctuation = True\<rparr> ex_best2) [S ''a'', S ''b''] = 1 \<and>
   tokenizer (NewAnswerGenerator ex_chain_model ex_gen_config) = \<lparr>keepPunctuation = True\<rparr> \<and>
   findBestSentence ascii (NewAnswerGenerator ex_chain_model ex_gen_config)
     [ex_best1, ex_best2] [S ''a'', S ''b''] = ex_best2"
proof -
  have t: "tokenizer (NewAnswerGenerator ex_chain_model ex_gen_config) = \<lparr>keepPunctuation = True\<rparr>"
    by (simp add: NewAnswerGenerator_fields ex_gen_config_def)
  have c: "spec_keywordCount (Tokenize ascii \<lparr>keepPunctuation = True\<rparr> ex_best1) [S ''a'', S ''b''] = 2"
    "spec_keywordCount (Tokenize ascii \<lparr>keepPunctuation = True\<rparr> ex_best2) [S ''a'', S ''b''] = 1"
    by (simp_all add: Tokenize_ex_best spec_keywordCount_def S_eq_iff)
  have "findBestSentence ascii (NewAnswerGenerator ex_chain_model ex_gen_config)
     [ex_best1, ex_best2] [S ''a'', S ''b''] = ex_best2"
    by (simp add: findBestSentence_def betterSentence_def t ex_best_scores Let_def)
  with t c show ?thesis by simp
qed

section \<open>The guided continuation\<close>

text \<open>
  On a model of order at least 1 the search for the start position returns a position
  within the sentence, and the continuation from such a position returns: its loop
  terminates (every iteration either appends a token, which the guard bounds by
  \<open>maxLength\<close>, or counts a stall, which the guard bounds by 10), no slice leaves the
  backing array, and the produced sequence has at most \<open>max startPos maxLength\<close> tokens.
\<close>

lemma startPositionLoop_returns:
  "1 \<le> Order (chain g) \<Longrightarrow> 0 \<le> i \<Longrightarrow> 0 \<le> bestPos \<Longrightarrow> bestPos \<le> int (length tokens) \<Longrightarrow>
   \<exists>pos. startPositionLoop g tokens kws i bestPos bestScore = Returned pos \<and>
         0 \<le> pos \<and> pos \<le> int (length tokens)"
proof (induction g tokens kws i bestPos bestScore rule: startPositionLoop.induct)
  case (1 g tokens kws i bestPos bestScore)
  show ?case
  proof (cases "i \<le> int (length tokens) - Order (chain g) + 1")
    case False
    with "1.prems" show ?thesis by (simp add: startPositionLoop.simps)
  next
    case True
    define stop where "stop = min (i + Order (chain g) - 1) (int (length tokens))"
    have ok: "0 \<le> i \<and> i \<le> stop \<and> stop \<le> int (length tokens)"
      using True "1.prems" by (auto simp: stop_def)
    have i1: "0 \<le> i + 1" and il: "i \<le> int (length tokens)" using True "1.prems" by auto
    show ?thesis
    proof (cases "map_of (Chain (chain g)) (joinTokens (slice tokens i stop)) = None")
      case absent: True
      have "\<exists>pos. startPositionLoop g tokens kws (i + 1) bestPos bestScore = Returned pos \<and>
          0 \<le> pos \<and> pos \<le> int (length tokens)"
        using "1.IH"(1) [OF True stop_def _ refl refl absent] ok "1.prems" i1 by simp
      then show ?thesis
        using True ok absent
        by (subst startPositionLoop.simps) (simp add: stop_def [symmetric] Let_def)
    next
      case present: False
      show ?thesis
      proof (cases "segmentScore g (slice tokens i stop) kws > bestScore")
        case better: True
        have "\<exists>pos. startPositionLoop g tokens kws (i + 1) i
            (segmentScore g (slice tokens i stop) kws) = Returned pos \<and>
            0 \<le> pos \<and> pos \<le> int (length tokens)"
          using "1.IH"(2) [OF True stop_def _ refl refl present refl better] ok "1.prems" i1 il
          by simp
        then show ?thesis
          using True ok present better
          by (subst startPositionLoop.simps) (auto simp: stop_def [symmetric] Let_def)
      next
        case worse: False
        have "\<exists>pos. startPositionLoop g tokens kws (i + 1) bestPos bestScore = Returned pos \<and>
            0 \<le> pos \<and> pos \<le> int (length tokens)"
          using "1.IH"(3) [OF True stop_def _ refl refl present refl worse] ok "1.prems" i1
          by simp
        then show ?thesis
          using True ok present worse
          by (subst startPositionLoop.simps) (simp add: stop_def [symmetric] Let_def)
      qed
    qed
  qed
qed

lemma length_overwrite: "pos + length ys \<le> length xs \<Longrightarrow> length (overwrite xs pos ys) = length xs"
  by (simp add: overwrite_def)

lemma contPrefix_returns:
  assumes "1 \<le> Order (chain g)" and "contInv n st"
  shows "\<exists>p b. contPrefix g st = Returned (p, b) \<and> length b = length (backing st)"
proof (cases "int (length (result st)) \<ge> Order (chain g) - 1")
  case True
  with assms show ?thesis by (simp add: contPrefix_def Let_def)
next
  case False
  have "nat (currentPos st) + length (result st) \<le> length (backing st)"
    if "currentPos st + int (length (result st)) \<le> int (length (backing st))"
  proof -
    from assms(2) obtain m where "currentPos st = int m"
      by (auto simp: contInv_def dest: zero_le_imp_eq_int)
    with that show ?thesis by simp
  qed
  with False assms show ?thesis
    by (auto simp: contPrefix_def Let_def contInv_def length_overwrite)
qed

lemma contIteration_cases:
  assumes "1 \<le> Order (chain g)" and "contInv n st" and "contGuard g n st"
  shows "(\<exists>st'. contIteration g kws ds n st = Next st' \<and> contInv n st' \<and>
            length (result st') = Suc (length (result st))) \<or>
         (\<exists>st'. contIteration g kws ds n st = Stop st' \<and> contInv n st' \<and>
            result st' = result st)"
proof -
  from contPrefix_returns [OF assms(1,2)] obtain p b
    where p: "contPrefix g st = Returned (p, b)" and b: "length b = length (backing st)"
    by blast
  from assms(2,3) b show ?thesis
    by (auto simp: contIteration_def p contStall_def contInv_def contGuard_def Let_def
        split: option.splits)
qed

lemma contLoop_returns:
  "1 \<le> Order (chain g) \<Longrightarrow> contInv n st \<Longrightarrow>
   \<exists>st'. contLoop g kws ds n st = Returned st' \<and> contInv n st' \<and>
     int (length (result st')) \<le> max (int (length (result st))) (maxLength g)"
proof (induction g kws ds n st rule: contLoop.induct)
  case (1 g kws ds n st)
  show ?case
  proof (cases "contGuard g n st")
    case False
    with "1.prems" show ?thesis by (subst contLoop.simps) simp
  next
    case True
    from contIteration_cases [OF "1.prems" True, of kws ds] show ?thesis
    proof (elim disjE exE conjE)
      fix st' assume n: "contIteration g kws ds n st = Next st'" and i: "contInv n st'"
        and l: "length (result st') = Suc (length (result st))"
      from "1.IH" [OF True n "1.prems"(1) i] obtain st'' where
        "contLoop g kws ds n st' = Returned st''" "contInv n st''"
        "int (length (result st'')) \<le> max (int (length (result st'))) (maxLength g)"
        by blast
      moreover from True l have "int (length (result st')) \<le> maxLength g"
        by (simp add: contGuard_def)
      ultimately show ?thesis
        using True n by (subst contLoop.simps) auto
    next
      fix st' assume s: "contIteration g kws ds n st = Stop st'" and i: "contInv n st'"
        and r: "result st' = result st"
      then show ?thesis using True by (subst contLoop.simps) simp
    qed
  qed
qed

lemma half_le: "x < half m \<Longrightarrow> 0 \<le> x \<Longrightarrow> x < m"
  by (auto simp: half_def split: if_splits)

lemma continuationTokens_returns:
  assumes "1 \<le> Order (chain g)" and "0 \<le> startPos" and "startPos \<le> int (length tokens)"
  shows "\<exists>produced. continuationTokens g tokens spare startPos kws ds = Returned produced \<and>
           int (length produced) \<le> max startPos (maxLength g)"
proof -
  define backing0 where "backing0 = tokens @ replicate spare ([] :: gostring)"
  define result0 where "result0 = (if startPos > 0 then take (nat startPos) backing0 else [])"
  define st0 where "st0 = \<lparr>result = result0, currentPos = startPos, attempts = 0,
                      backing = backing0, sampled = 0\<rparr>"
  have l0: "int (length result0) = startPos"
    using assms(2,3) by (auto simp: result0_def backing0_def)
  have inv0: "contInv (length tokens) st0"
    using assms(2,3) by (simp add: contInv_def st0_def backing0_def)
  from contLoop_returns [OF assms(1) inv0, of kws ds] obtain st where
    loop: "contLoop g kws ds (length tokens) st0 = Returned st" and inv: "contInv (length tokens) st"
    and len: "int (length (result st)) \<le> max startPos (maxLength g)"
    by (auto simp: st0_def l0)
  have c: "continuationTokens g tokens spare startPos kws ds =
      (if int (length (result st)) < half (maxLength g) \<and> currentPos st < int (length tokens) then
         (let remaining = min (maxLength g - int (length (result st)))
                              (int (length tokens) - currentPos st)
          in if \<not> (0 \<le> currentPos st \<and> currentPos st \<le> currentPos st + remaining \<and>
                    currentPos st + remaining \<le> int (length (backing st)))
             then Panic SliceBoundsOutOfRange
             else Returned (result st @
                    slice (backing st) (currentPos st) (currentPos st + remaining)))
       else Returned (result st))"
  proof -
    have nb: "\<not> (0 < startPos \<and> int (length backing0) < startPos)"
      using assms(3) by (simp add: backing0_def)
    show ?thesis
      unfolding continuationTokens_def Let_def
      unfolding backing0_def [symmetric]
      unfolding result0_def [symmetric]
      unfolding st0_def [symmetric]
      using nb by (simp only: loop if_False outcome.case)
  qed
  show ?thesis
  proof (cases "int (length (result st)) < half (maxLength g) \<and> currentPos st < int (length tokens)")
    case False
    with c len show ?thesis by auto
  next
    case True
    define remaining where "remaining = min (maxLength g - int (length (result st)))
                              (int (length tokens) - currentPos st)"
    from True have lt: "int (length (result st)) < maxLength g" by (auto dest: half_le)
    with True have rem: "0 < remaining" "remaining \<le> maxLength g - int (length (result st))"
      "currentPos st + remaining \<le> int (length tokens)"
      by (auto simp: remaining_def)
    with inv have ok: "0 \<le> currentPos st \<and> currentPos st \<le> currentPos st + remaining \<and>
                    currentPos st + remaining \<le> int (length (backing st))"
      by (auto simp: contInv_def)
    have "length (slice (backing st) (currentPos st) (currentPos st + remaining)) \<le> nat remaining"
      by (simp add: slice_def)
    with rem have "int (length (result st @
        slice (backing st) (currentPos st) (currentPos st + remaining))) \<le> maxLength g"
      by auto
    with c True ok show ?thesis
      by (auto simp: remaining_def [symmetric] Let_def)
  qed
qed

lemma parsePrefix_d: "parsePrefix (S ''[d]'') = [S ''d'']"
  by (simp add: S_def parsePrefix_def TrimPrefix_def TrimSuffix_def TrimSpace_def IsSpace_def)

lemma ex_long_contexts:
  "tokenContexts (Chain ex_long_model) =
    [(S ''<start>'', [(S ''<start>'', 1)]), (S ''a'', [(S ''<start>'', 1), (S ''a'', 1)]),
     (S ''b'', [(S ''a'', 1), (S ''b'', 1)]), (S ''c'', [(S ''b'', 1), (S ''c'', 1)]),
     (S ''d'', [(S ''c'', 1), (S ''d'', 1)]), (S ''<end>'', [(S ''d'', 1)])]"
  by (simp add: tokenContexts_def ex_long_model_def parsePrefix_examples parsePrefix_d
      createContextKey_def addTokenContext_def eval_maps S_eq_iff Let_def)

lemma ex_short_fields:
  "chain ex_short_generator = ex_long_model" "maxLength ex_short_generator = 2"
  "map_of (tokenEntropy ex_short_generator) (S ''a'') = Some 1"
  "map_of (tokenEntropy ex_short_generator) (S ''b'') = Some 1"
  "map_of (tokenEntropy ex_short_generator) (S ''c'') = Some 1"
  "map_of (tokenEntropy ex_short_generator) (S ''d'') = Some 1"
  by (simp_all add: ex_short_generator_def NewAnswerGenerator_fields ex_short_config_def
      tokenEntropy_NewAnswerGenerator ex_long_contexts S_eq_iff calc2)

lemma S_append: "S a @ S b = S (a @ b)"
  by (simp add: S_def)

lemma joinTokens_single: "joinTokens [S a] = S (''['' @ a @ '']'')"
  by (simp add: joinTokens_def S_append)

lemma ex_long_lookup:
  "map_of (Chain ex_long_model) (S ''[a]'') \<noteq> None" "map_of (Chain ex_long_model) (S ''[b]'') \<noteq> None"
  "map_of (Chain ex_long_model) (S ''[c]'') \<noteq> None" "map_of (Chain ex_long_model) (S ''[d]'') \<noteq> None"
  "Order ex_long_model = 2"
  by (simp_all add: ex_long_model_def S_eq_iff)

lemma ex_long_Train:
  "Train (NewMarkovTrainer ex_config)
     [[S ''<start>'', S ''a'', S ''b'', S ''c'', S ''d'', S ''<end>'']]
     = Returned (None, ex_long_model)"
  by code_simp

lemma ex_startPosition:
  "findThematicStartPosition ex_short_generator [S ''a'', S ''b'', S ''c'', S ''d''] [S ''d'']
     = Returned 3"
proof -
  note e = ex_short_fields(6)
  let ?g = ex_short_generator and ?t = "[S ''a'', S ''b'', S ''c'', S ''d'']" and ?k = "[S ''d'']"
  note defs = ex_short_fields(1,2) ex_long_lookup slice_def joinTokens_single segmentScore_def S_eq_iff Let_def e
  have "startPositionLoop ?g ?t ?k 0 0 (- 1) = startPositionLoop ?g ?t ?k 1 0 0"
    by (subst startPositionLoop.simps) (simp add: defs)
  also have "\<dots> = startPositionLoop ?g ?t ?k 2 0 0"
    by (subst startPositionLoop.simps) (simp add: defs)
  also have "\<dots> = startPositionLoop ?g ?t ?k 3 0 0"
    by (subst startPositionLoop.simps) (simp add: defs)
  also have "\<dots> = startPositionLoop ?g ?t ?k 4 3 (1 / (1 + 0.1))"
    by (subst startPositionLoop.simps) (simp add: defs)
  also have "\<dots> = Returned 3"
    by (subst startPositionLoop.simps) (simp add: defs)
  finally show ?thesis by (simp add: findThematicStartPosition_def)
qed

text \<open>
  C6. The continuation terminates and its loop stops after 10 stalls (lemma
  \<open>continuationTokens_returns\<close>), but the bound on the produced sequence is
  \<open>max startPos maxLength\<close>, not \<open>maxLength\<close>: the tokens before the start position are
  copied without regard to \<open>maxLength\<close>. The generator below has \<open>maxLength = 2\<close> and the
  model trained on the sentence \<open>a b c d\<close>. For this sentence and the keyword \<open>d\<close>, the
  start position is 3; the continuation copies the three tokens before it, does not
  enter its loop and returns them: three tokens, more than \<open>maxLength\<close>.
\<close>

theorem continuation_exceeds_maxLength:
  "maxLength ex_short_generator = 2 \<and>
   findThematicStartPosition ex_short_generator [S ''a'', S ''b'', S ''c'', S ''d''] [S ''d'']
     = Returned 3 \<and>
   continuationTokens ex_short_generator [S ''a'', S ''b'', S ''c'', S ''d''] 0 3 [S ''d'']
     (draws ex_runtime) = Returned [S ''a'', S ''b'', S ''c'']"
  by (simp add: ex_startPosition ex_short_fields continuationTokens_def contLoop.simps
      contGuard_def half_def Let_def)

section \<open>Properties of the answer generator\<close>






text \<open>
  A question that does match a sentence goes through the continuation; on a model of
  order at least 1 this returns too, so that \<^verbatim>\<open>GenerateAnswer\<close> returns an answer for
  every question. The hypothesis on the order is needed: on the model file with
  \<open>order = 0\<close> the question \<open>cat\<close> matches a sentence, and the search for the start
  position slices \<^verbatim>\<open>tokens[0:-1]\<close>.
\<close>

lemma generateFromSentence_returns:
  assumes "1 \<le> Order (chain g)"
  shows "\<exists>answer. generateFromSentence u g sentence kws rt = Returned answer"
proof -
  define cleanTokens where "cleanTokens =
    filter (\<lambda>token. token \<noteq> start_token \<and> token \<noteq> end_token) (Tokenize u (tokenizer g) sentence)"
  show ?thesis
  proof (cases "length cleanTokens = 0")
    case True
    then show ?thesis
      by (simp add: generateFromSentence_def Let_def cleanTokens_def [symmetric])
  next
    case False
    from startPositionLoop_returns [OF assms, of 0 0 cleanTokens kws "- 1"]
    obtain pos where p: "findThematicStartPosition g cleanTokens kws = Returned pos"
      and b: "0 \<le> pos" "pos \<le> int (length cleanTokens)"
      by (auto simp: findThematicStartPosition_def)
    from continuationTokens_returns [OF assms b, of "spareCap rt" kws "draws rt"]
    obtain produced where
      "continuationTokens g cleanTokens (spareCap rt) pos kws (draws rt) = Returned produced"
      by blast
    with False p show ?thesis
      by (simp add: generateFromSentence_def Let_def cleanTokens_def [symmetric]
          generateThematicContinuation_def)
  qed
qed

lemma GenerateAnswer_returns:
  assumes "1 \<le> Order (chain g)"
  shows "\<exists>answer. GenerateAnswer u g question rt = Returned answer"
proof -
  obtain answer where "generateFromSentence u g
      (findBestSentence u g (Search (chain g) (searchKeywords u g question) 5 (searchOrder rt))
         (searchKeywords u g question))
      (searchKeywords u g question) rt = Returned answer"
    using generateFromSentence_returns [OF assms] by blast
  then show ?thesis
    by (simp add: GenerateAnswer_def Let_def)
qed

lemma ex_order0_fields:
  "chain ex_order0_generator = ex_order0_model"
  "tokenizer ex_order0_generator = \<lparr>keepPunctuation = True\<rparr>"
  "tokenEntropy ex_order0_generator = []"
  by (simp_all add: ex_order0_generator_def NewAnswerGenerator_fields ex_gen_config_def)
     (simp add: NewAnswerGenerator_def analyzeEntropy_def ex_order0_model_def tokenContexts_def)

lemma Tokenize_cat:
  "Tokenize ascii \<lparr>keepPunctuation = True\<rparr> (S ''cat'') = [S ''<start>'', S ''cat'', S ''<end>'']"
  "Tokenize ascii \<lparr>keepPunctuation = True\<rparr> (S ''<start> cat <end>'') =
     [S ''<start>'', S ''cat'', S ''<end>'']"
  by (simp_all add: Tokenize_def S_def ascii_def IsSpace_def
      punctuationRegex_def wordRune_def addSpecialTokens_def start_token_def end_token_def Let_def)

lemma ex_order0_keywords:
  "extractKeywords ascii ex_order0_generator (S ''cat'') = [S ''cat'']"
  by (simp add: extractKeywords_def ex_order0_fields Tokenize_cat)
     (simp add: stopWords_def start_token_def end_token_def S_def len_def utf8_len_def isPunctuation_def)

lemma ex_order0_searchKeywords:
  "searchKeywords ascii ex_order0_generator (S ''cat'') = [S ''cat'']"
  by (simp add: searchKeywords_def ex_order0_keywords getThematicKeywords_def isThematicToken_def
      ex_order0_fields Let_def)

lemma ex_order0_Search:
  "Search ex_order0_model [S ''cat''] 5 [] = [S ''<start> cat <end>'']"
  by (simp add: Search_def sentenceScores_def ex_order0_model_def addScores_def get0_def
      sortSlice_def Let_def)

lemma ex_order0_start:
  "findThematicStartPosition ex_order0_generator [S ''cat''] [S ''cat''] = Panic SliceBoundsOutOfRange"
  by (simp add: findThematicStartPosition_def)
     (subst startPositionLoop.simps, simp add: ex_order0_fields ex_order0_model_def)

lemma GenerateAnswer_order_zero_panics:
  "Order (chain ex_order0_generator) = 0 \<and>
   GenerateAnswer ascii ex_order0_generator (S ''cat'') ex_runtime = Panic SliceBoundsOutOfRange"
proof -
  have g: "generateFromSentence ascii ex_order0_generator (S ''<start> cat <end>'') [S ''cat'']
      ex_runtime = Panic SliceBoundsOutOfRange"
    by (simp add: generateFromSentence_def ex_order0_fields Tokenize_cat start_token_def
        end_token_def S_eq_iff ex_order0_start Let_def)
  have b: "findBestSentence ascii ex_order0_generator [S ''<start> cat <end>''] [S ''cat'']
      = S ''<start> cat <end>''"
    by (simp add: findBestSentence_def betterSentence_def Let_def)
  have "GenerateAnswer ascii ex_order0_generator (S ''cat'') ex_runtime = Panic SliceBoundsOutOfRange"
    by (simp add: GenerateAnswer_def ex_order0_keywords ex_order0_searchKeywords
        ex_order0_fields ex_order0_Search ex_runtime_def [THEN arg_cong, of searchOrder] b g Let_def)
  then show ?thesis by (simp add: ex_order0_fields ex_order0_model_def)
qed









end
